theory Spec2Isabelle
  imports Main "HOL-Library.Log_Nat" "HOL-Library.AList"
    "HOL-Library.Code_Target_Numeral"
begin

section \<open>The PDF split tool: page selection, range parsing and partitioning\<close>

text \<open>
  The component \<open>PDFSplitTool\<close> keeps a list of page previews, lets the user select pages
  by clicking or by typing a range string, and produces either one document, or an archive
  of documents. This theory embeds the handlers \<open>loadPDF\<close>, \<open>togglePageSelection\<close>,
  \<open>selectAll\<close>, \<open>applyRange\<close> and \<open>processPDF\<close> together with the parts of the JavaScript
  runtime they call (\<open>String.prototype.split\<close>, \<open>trim\<close>, \<open>Number\<close>, \<open>isNaN\<close>,
  \<open>Math.min\<close>, \<open>Math.max\<close>, \<open>Set\<close>).
\<close>

subsection \<open>JavaScript numbers\<close>

text \<open>
  A JavaScript number is an IEEE binary64 value. A finite value is carried as the rational it
  denotes; every arithmetic result goes through \<open>fl\<close>, rounding to the nearest binary64
  value, ties to even. The two zeros are identified: the handlers only compare and add,
  and \<open>Set\<close> membership treats both zeros alike.
\<close>

datatype jsnum = NaN | NInf | Fin rat | PInf

definition pow2 :: "int \<Rightarrow> rat" where
  "pow2 e = (if 0 \<le> e then 2 ^ nat e else 1 / 2 ^ nat (- e))"

definition flog2 :: "rat \<Rightarrow> int" where
  \<comment> \<open>\<open>\<lfloor>log\<^sub>2 x\<rfloor>\<close> for \<open>x > 0\<close>\<close>
  "flog2 x = (case quotient_of x of (p, q) \<Rightarrow>
                (let d = bitlen p - bitlen q in if pow2 d \<le> x then d else d - 1))"

definition round_even :: "rat \<Rightarrow> int" where
  "round_even y = (let f = \<lfloor>y\<rfloor>; d = y - of_int f in
                     if d < 1 / 2 then f
                     else if 1 / 2 < d then f + 1
                     else if even f then f else f + 1)"

definition fl :: "rat \<Rightarrow> jsnum" where
  "fl x = (if x = 0 then Fin 0
           else (let e = max (- 1074) (flog2 \<bar>x\<bar> - 52);
                     r = of_int (round_even (x / pow2 e)) * pow2 e
                 in if 2 ^ 1024 \<le> r then PInf
                    else if r \<le> - (2 ^ 1024) then NInf
                    else Fin r))"

definition isNaN :: "jsnum \<Rightarrow> bool" where
  "isNaN v = (v = NaN)"

fun js_le :: "jsnum \<Rightarrow> jsnum \<Rightarrow> bool" where
  "js_le NaN _ = False"
| "js_le _ NaN = False"
| "js_le NInf _ = True"
| "js_le _ PInf = True"
| "js_le (Fin a) (Fin b) = (a \<le> b)"
| "js_le (Fin a) NInf = False"
| "js_le PInf _ = False"

fun js_lt :: "jsnum \<Rightarrow> jsnum \<Rightarrow> bool" where
  "js_lt NaN _ = False"
| "js_lt _ NaN = False"
| "js_lt PInf _ = False"
| "js_lt _ NInf = False"
| "js_lt (Fin a) (Fin b) = (a < b)"
| "js_lt NInf _ = True"
| "js_lt (Fin a) PInf = True"

definition js_gt :: "jsnum \<Rightarrow> jsnum \<Rightarrow> bool" where
  "js_gt a b = js_lt b a"

definition js_min :: "jsnum \<Rightarrow> jsnum \<Rightarrow> jsnum" where
  \<comment> \<open>\<open>Math.min\<close> of two arguments\<close>
  "js_min a b = (if a = NaN \<or> b = NaN then NaN else if js_le a b then a else b)"

definition js_max :: "jsnum \<Rightarrow> jsnum \<Rightarrow> jsnum" where
  \<comment> \<open>\<open>Math.max\<close> of two arguments\<close>
  "js_max a b = (if a = NaN \<or> b = NaN then NaN else if js_le a b then b else a)"

fun js_add :: "jsnum \<Rightarrow> jsnum \<Rightarrow> jsnum" where
  "js_add NaN _ = NaN"
| "js_add _ NaN = NaN"
| "js_add (Fin a) (Fin b) = fl (a + b)"
| "js_add PInf NInf = NaN"
| "js_add NInf PInf = NaN"
| "js_add PInf _ = PInf"
| "js_add _ PInf = PInf"
| "js_add NInf _ = NInf"
| "js_add _ NInf = NInf"

fun js_neg :: "jsnum \<Rightarrow> jsnum" where
  "js_neg NaN = NaN"
| "js_neg NInf = PInf"
| "js_neg PInf = NInf"
| "js_neg (Fin a) = Fin (- a)"

definition js_sub :: "jsnum \<Rightarrow> jsnum \<Rightarrow> jsnum" where
  "js_sub a b = js_add a (js_neg b)"

definition num :: "nat \<Rightarrow> jsnum" where
  \<comment> \<open>an array length or a page index as a number: a whole number below \<open>2^32\<close>, exact\<close>
  "num n = Fin (of_nat n)"

subsection \<open>JavaScript strings\<close>

text \<open>
  Strings are lists of code units; the model covers the code units below 256. Of these,
  \<open>trim\<close> and \<open>Number\<close> treat as white space: TAB, LF, VT, FF, CR, SPACE and NBSP.
\<close>

definition is_ws :: "char \<Rightarrow> bool" where
  "is_ws c = ((of_char c :: nat) \<in> {9, 10, 11, 12, 13, 32, 160})"

definition trim :: "string \<Rightarrow> string" where
  "trim s = rev (dropWhile is_ws (rev (dropWhile is_ws s)))"

fun split :: "char \<Rightarrow> string \<Rightarrow> string list" where
  \<comment> \<open>\<open>s.split(sep)\<close> for a separator of one code unit\<close>
  "split sep [] = [[]]"
| "split sep (c # cs) =
     (if c = sep then [] # split sep cs
      else (case split sep cs of
              [] \<Rightarrow> [[c]]
            | w # ws \<Rightarrow> (c # w) # ws))"

definition is_digit :: "char \<Rightarrow> bool" where
  "is_digit c = (48 \<le> (of_char c :: nat) \<and> (of_char c :: nat) \<le> 57)"

definition hex_val :: "char \<Rightarrow> nat option" where
  "hex_val c = (let n = (of_char c :: nat) in
                  if 48 \<le> n \<and> n \<le> 57 then Some (n - 48)
                  else if 97 \<le> n \<and> n \<le> 102 then Some (n - 87)
                  else if 65 \<le> n \<and> n \<le> 70 then Some (n - 55)
                  else None)"

definition is_radix_digit :: "nat \<Rightarrow> char \<Rightarrow> bool" where
  "is_radix_digit b c = (case hex_val c of None \<Rightarrow> False | Some d \<Rightarrow> d < b)"

definition radix_val :: "nat \<Rightarrow> string \<Rightarrow> nat" where
  "radix_val b ds = foldl (\<lambda>a c. b * a + (case hex_val c of None \<Rightarrow> 0 | Some d \<Rightarrow> d)) 0 ds"

definition digits_val :: "string \<Rightarrow> nat" where
  "digits_val ds = radix_val 10 ds"

subsection \<open>\<open>Number(string)\<close>\<close>

text \<open>
  \<open>Number\<close> applied to a string strips white space at both ends; the empty rest is \<open>0\<close>;
  otherwise the rest must be, as a whole, a binary, octal or hexadecimal integer literal
  (\<open>0b\<close>, \<open>0o\<close>, \<open>0x\<close>, no sign), or an optionally signed \<open>Infinity\<close> or decimal literal
  (digits, optional fraction, optional exponent). Anything else is \<open>NaN\<close>. The
  mathematical value of the literal is rounded to binary64, to nearest, as the engines do.
\<close>

definition exponent_part :: "string \<Rightarrow> int option" where
  "exponent_part r =
     (case r of
        [] \<Rightarrow> Some 0
      | c # r1 \<Rightarrow>
          if c = CHR ''e'' \<or> c = CHR ''E'' then
            (case r1 of
               [] \<Rightarrow> None
             | s # r2 \<Rightarrow>
                 if s = CHR ''+'' then
                   (if r2 \<noteq> [] \<and> list_all is_digit r2 then Some (int (digits_val r2)) else None)
                 else if s = CHR ''-'' then
                   (if r2 \<noteq> [] \<and> list_all is_digit r2 then Some (- int (digits_val r2)) else None)
                 else if list_all is_digit r1 then Some (int (digits_val r1))
                 else None)
          else None)"

definition pow10 :: "int \<Rightarrow> rat" where
  "pow10 e = (if 0 \<le> e then 10 ^ nat e else 1 / 10 ^ nat (- e))"

definition str_unsigned_decimal :: "string \<Rightarrow> rat option" where
  \<comment> \<open>the mathematical value of an unsigned decimal literal, \<open>None\<close> when the string is not one\<close>
  "str_unsigned_decimal t =
     (let ip = takeWhile is_digit t;
          r1 = dropWhile is_digit t;
          dot = (r1 \<noteq> [] \<and> hd r1 = CHR ''.'');
          fp = (if dot then takeWhile is_digit (tl r1) else []);
          r2 = (if dot then dropWhile is_digit (tl r1) else r1)
      in if ip = [] \<and> fp = [] then None
         else (case exponent_part r2 of
                 None \<Rightarrow> None
               | Some ex \<Rightarrow>
                   Some (of_nat (digits_val (ip @ fp)) / 10 ^ length fp * pow10 ex)))"

definition str_decimal_literal :: "string \<Rightarrow> jsnum" where
  "str_decimal_literal t =
     (let neg = (t \<noteq> [] \<and> hd t = CHR ''-'');
          u = (if t \<noteq> [] \<and> (hd t = CHR ''+'' \<or> hd t = CHR ''-'') then tl t else t)
      in if u = ''Infinity'' then (if neg then NInf else PInf)
         else (case str_unsigned_decimal u of
                 None \<Rightarrow> NaN
               | Some v \<Rightarrow> fl (if neg then - v else v)))"

definition non_decimal_literal :: "string \<Rightarrow> jsnum option" where
  "non_decimal_literal t =
     (case t of
        z # x # ds \<Rightarrow>
          if z = CHR ''0'' \<and> ds \<noteq> [] then
            (if (x = CHR ''b'' \<or> x = CHR ''B'') \<and> list_all (is_radix_digit 2) ds
               then Some (fl (of_nat (radix_val 2 ds)))
             else if (x = CHR ''o'' \<or> x = CHR ''O'') \<and> list_all (is_radix_digit 8) ds
               then Some (fl (of_nat (radix_val 8 ds)))
             else if (x = CHR ''x'' \<or> x = CHR ''X'') \<and> list_all (is_radix_digit 16) ds
               then Some (fl (of_nat (radix_val 16 ds)))
             else None)
          else None
      | _ \<Rightarrow> None)"

definition Number :: "string \<Rightarrow> jsnum" where
  "Number s =
     (let t = trim s in
        if t = [] then Fin 0
        else (case non_decimal_literal t of
                Some v \<Rightarrow> v
              | None \<Rightarrow> str_decimal_literal t))"

subsection \<open>\<open>Set<number>\<close>\<close>

text \<open>A \<open>Set\<close> keeps its members in insertion order, each once.\<close>

type_synonym jsset = "jsnum list"

definition set_add :: "jsnum \<Rightarrow> jsset \<Rightarrow> jsset" where
  "set_add v S = (if v \<in> set S then S else S @ [v])"

definition set_has :: "jsset \<Rightarrow> jsnum \<Rightarrow> bool" where
  "set_has S v = (v \<in> set S)"

subsection \<open>Component state\<close>

record PagePreview =
  index :: nat
  imageUrl :: string
  selected :: bool

datatype mode = Custom | Fixed

datatype outputMode = Single | Separate

text \<open>
  A produced document is described by the source page indices copied into it, in order; an
  archive by its entries, name and document, in insertion order.
\<close>

datatype artifact = PdfBlob "nat list" | ZipBlob "(string \<times> nat list) list"

text \<open>
  The state of the component; \<open>file'\<close> is the state variable \<open>file\<close> (the name of the chosen
  file, or nothing), \<open>resultUrl\<close> the produced blob (or nothing), \<open>alerts\<close> the notices shown
  so far.
\<close>

record state =
  file' :: "string option"
  pages :: "PagePreview list"
  mode :: mode
  outputMode :: outputMode
  fixedRange :: nat
  isLoading :: bool
  isProcessing :: bool
  rangeInput :: string
  resultUrl :: "artifact option"
  resultFilename :: string
  alerts :: "string list"

definition setPages :: "(PagePreview list \<Rightarrow> PagePreview list) \<Rightarrow> state \<Rightarrow> state" where
  \<comment> \<open>\<open>setPages(prev => ...)\<close> followed by the effect that resets the result whenever
      \<open>pages\<close> is replaced\<close>
  "setPages f st = st\<lparr>pages := f (pages st), resultUrl := None\<rparr>"

definition togglePageSelection :: "nat \<Rightarrow> state \<Rightarrow> state" where
  "togglePageSelection i st =
     (if mode st = Fixed then st
      else setPages (map (\<lambda>p. if index p = i then p\<lparr>selected := \<not> selected p\<rparr> else p)) st)"

definition selectAll :: "bool \<Rightarrow> state \<Rightarrow> state" where
  "selectAll select st = setPages (map (\<lambda>p. p\<lparr>selected := select\<rparr>)) st"

subsection \<open>\<open>applyRange\<close>\<close>

text \<open>
  The loop \<open>for (let i = start; i <= end; i++)\<close> runs on binary64 values: it does not
  terminate when \<open>end\<close> is \<open>Infinity\<close>, or so large that \<open>i + 1\<close> rounds back to \<open>i\<close>.
  Not returning is the value \<open>None\<close>.
\<close>

partial_function (option) range_loop :: "jsnum \<Rightarrow> jsnum \<Rightarrow> nat \<Rightarrow> jsset \<Rightarrow> jsset option" where
  "range_loop i e n S =
     (if js_le i e
      then range_loop (js_add i (num 1)) e n
             (if js_gt i (num 0) \<and> js_le i (num n) then set_add (js_sub i (num 1)) S else S)
      else Some S)"

declare range_loop.simps [code]

definition apply_part :: "nat \<Rightarrow> jsset \<Rightarrow> string \<Rightarrow> jsset option" where
  \<comment> \<open>the callback of \<open>parts.forEach\<close>; \<open>n\<close> is \<open>pages.length\<close>\<close>
  "apply_part n S part =
     (let range = map Number (split CHR ''-'' (trim part)) in
        if length range = 1 \<and> \<not> isNaN (range ! 0) then
          Some (if js_gt (range ! 0) (num 0) \<and> js_le (range ! 0) (num n)
                then set_add (js_sub (range ! 0) (num 1)) S else S)
        else if length range = 2 \<and> \<not> isNaN (range ! 0) \<and> \<not> isNaN (range ! 1) then
          range_loop (js_min (range ! 0) (range ! 1)) (js_max (range ! 0) (range ! 1)) n S
        else Some S)"

fun forEach_parts :: "nat \<Rightarrow> string list \<Rightarrow> jsset \<Rightarrow> jsset option" where
  "forEach_parts n [] S = Some S"
| "forEach_parts n (part # parts) S =
     (case apply_part n S part of
        None \<Rightarrow> None
      | Some S' \<Rightarrow> forEach_parts n parts S')"

definition selectedIndices :: "string \<Rightarrow> nat \<Rightarrow> jsset option" where
  \<comment> \<open>the set built by \<open>applyRange\<close> from a non-empty input and \<open>pages.length\<close>\<close>
  "selectedIndices input n = forEach_parts n (split CHR '','' input) []"

definition applyRange :: "state \<Rightarrow> state option" where
  "applyRange st =
     (if rangeInput st = [] \<or> mode st = Fixed then Some st
      else (case selectedIndices (rangeInput st) (length (pages st)) of
              None \<Rightarrow> None
            | Some S \<Rightarrow>
                Some (setPages (map (\<lambda>p. p\<lparr>selected := set_has S (num (index p))\<rparr>)) st)))"

subsection \<open>\<open>loadPDF\<close>\<close>

text \<open>
  What the rendering library reports for the chosen file: the page count (\<open>None\<close> when
  \<open>getDocument\<close> rejects), and for each 1-based page number either a failure of \<open>getPage\<close>
  or \<open>render\<close> (\<open>None\<close>), or the thumbnail URL when a canvas context and a blob were
  obtained (\<open>Some (Some url)\<close>), or neither (\<open>Some None\<close>: the page is skipped). The display-only
  progress counter is left out of the state.
\<close>

record pdfjs =
  numPages :: "nat option"
  thumbnail :: "nat \<Rightarrow> string option option"

fun load_loop :: "(nat \<Rightarrow> string option option) \<Rightarrow> nat list \<Rightarrow> PagePreview list
                    \<Rightarrow> PagePreview list option" where
  "load_loop th [] newPages = Some newPages"
| "load_loop th (i # is) newPages =
     (case th i of
        None \<Rightarrow> None
      | Some None \<Rightarrow> load_loop th is newPages
      | Some (Some url) \<Rightarrow>
          load_loop th is (newPages @ [\<lparr>index = i - 1, imageUrl = url, selected = False\<rparr>]))"

definition loadPDF :: "pdfjs \<Rightarrow> string \<Rightarrow> state \<Rightarrow> state" where
  "loadPDF lib f st =
     (let st1 = (setPages (\<lambda>_. []) st)\<lparr>isLoading := True, file' := Some f, rangeInput := []\<rparr> in
        case (case numPages lib of
                None \<Rightarrow> None
              | Some totalPages \<Rightarrow> load_loop (thumbnail lib) [1 ..< Suc totalPages] []) of
          None \<Rightarrow> st1\<lparr>alerts := alerts st1 @ [''Failed to load PDF pages.''], isLoading := False\<rparr>
        | Some newPages \<Rightarrow> (setPages (\<lambda>_. newPages) st1)\<lparr>isLoading := False\<rparr>)"

subsection \<open>\<open>processPDF\<close>\<close>

text \<open>
  The environment of one run: the value of \<open>Date.now()\<close>, and the page count of the document
  as the PDF library loads it (\<open>None\<close> when reading or loading the file throws).
  \<open>copyPages\<close> throws on an index the source document does not have. An archive entry
  added under a name already present replaces that entry.
\<close>

record env =
  timestamp :: nat
  srcDoc :: "nat option"

datatype error = LoadFailed | NoSuchPage

definition copyPages :: "nat \<Rightarrow> nat list \<Rightarrow> error + nat list" where
  "copyPages c indices = (if list_all (\<lambda>i. i < c) indices then Inr indices else Inl NoSuchPage)"

definition zip_file :: "string \<Rightarrow> nat list \<Rightarrow> (string \<times> nat list) list
                          \<Rightarrow> (string \<times> nat list) list" where
  "zip_file name doc zp = AList.update name doc zp"

fun show_nat :: "nat \<Rightarrow> string" where
  \<comment> \<open>a whole number in a template literal: its decimal digits (the numbers rendered here,
      page numbers and a time stamp, are far below \<open>10^21\<close>, where the plain decimal form ends)\<close>
  "show_nat n = (if n < 10 then [char_of (48 + n)]
                 else show_nat (n div 10) @ [char_of (48 + n mod 10)])"

declare show_nat.simps [simp del]

text \<open>
  \<open>fixedRange\<close> is only ever set to \<open>Math.max(1, parseInt(value) || 1)\<close> and starts at 1: a
  whole number, at least 1. The page count, the chunk size and the chunk bounds are whole
  numbers; the model computes with them as natural numbers.
\<close>

definition chunkCount :: "nat \<Rightarrow> nat \<Rightarrow> nat" where
  \<comment> \<open>\<open>Math.ceil(pages.length / fixedRange)\<close>\<close>
  "chunkCount n k = nat \<lceil>(of_nat n :: rat) / of_nat k\<rceil>"

definition chunk_start :: "nat \<Rightarrow> nat \<Rightarrow> nat" where
  "chunk_start k i = i * k"

definition chunk_end :: "nat \<Rightarrow> nat \<Rightarrow> nat \<Rightarrow> nat" where
  "chunk_end n k i = min (chunk_start k i + k) n"

definition chunk_indices :: "nat \<Rightarrow> nat \<Rightarrow> nat \<Rightarrow> nat list" where
  \<comment> \<open>\<open>Array.from({length: end - start}, (_, k) => k + start)\<close>\<close>
  "chunk_indices n k i =
     map (\<lambda>j. j + chunk_start k i) [0 ..< chunk_end n k i - chunk_start k i]"

definition part_name :: "nat \<Rightarrow> nat \<Rightarrow> nat \<Rightarrow> string" where
  "part_name n k i =
     ''part_'' @ show_nat (i + 1) @ ''_pages_'' @ show_nat (chunk_start k i + 1) @ ''-''
       @ show_nat (chunk_end n k i) @ ''.pdf''"

definition fixed_groups :: "nat \<Rightarrow> nat \<Rightarrow> nat list list" where
  \<comment> \<open>the index groups of the fixed-size loop, in order\<close>
  "fixed_groups n k = map (chunk_indices n k) [0 ..< chunkCount n k]"

fun fixed_loop :: "nat \<Rightarrow> nat \<Rightarrow> nat \<Rightarrow> nat list \<Rightarrow> (string \<times> nat list) list
                     \<Rightarrow> error + (string \<times> nat list) list" where
  "fixed_loop c n k [] zp = Inr zp"
| "fixed_loop c n k (i # is) zp =
     (case copyPages c (chunk_indices n k i) of
        Inl err \<Rightarrow> Inl err
      | Inr doc \<Rightarrow> fixed_loop c n k is (zip_file (part_name n k i) doc zp))"

definition page_name :: "PagePreview \<Rightarrow> string" where
  "page_name page = ''page_'' @ show_nat (index page + 1) @ ''.pdf''"

fun separate_loop :: "nat \<Rightarrow> PagePreview list \<Rightarrow> (string \<times> nat list) list
                        \<Rightarrow> error + (string \<times> nat list) list" where
  "separate_loop c [] zp = Inr zp"
| "separate_loop c (page # ps) zp =
     (case copyPages c [index page] of
        Inl err \<Rightarrow> Inl err
      | Inr doc \<Rightarrow> separate_loop c ps (zip_file (page_name page) doc zp))"

definition process_body :: "env \<Rightarrow> state \<Rightarrow> error + (artifact \<times> string) option" where
  \<comment> \<open>the \<open>try\<close> block: \<open>Inl\<close> is a throw, \<open>Inr None\<close> the early \<open>return\<close>, \<open>Inr (Some (blob, name))\<close>
      the result that is stored\<close>
  "process_body ev st =
     (case srcDoc ev of
        None \<Rightarrow> Inl LoadFailed
      | Some c \<Rightarrow>
          if mode st = Fixed then
            (case fixed_loop c (length (pages st)) (fixedRange st)
                    [0 ..< chunkCount (length (pages st)) (fixedRange st)] [] of
               Inl err \<Rightarrow> Inl err
             | Inr zp \<Rightarrow>
                 Inr (Some (ZipBlob zp, ''split_fixed_'' @ show_nat (timestamp ev) @ ''.zip'')))
          else
            (let selectedPages = filter selected (pages st) in
               if length selectedPages = 0 then Inr None
               else if outputMode st = Single then
                 (case copyPages c (map index selectedPages) of
                    Inl err \<Rightarrow> Inl err
                  | Inr doc \<Rightarrow>
                      Inr (Some (PdfBlob doc, ''extracted_'' @ show_nat (timestamp ev) @ ''.pdf'')))
               else
                 (case separate_loop c selectedPages [] of
                    Inl err \<Rightarrow> Inl err
                  | Inr zp \<Rightarrow>
                      Inr (Some (ZipBlob zp,
                                 ''extracted_pages_'' @ show_nat (timestamp ev) @ ''.zip'')))))"

definition processPDF :: "env \<Rightarrow> state \<Rightarrow> state" where
  "processPDF ev st =
     (if file' st = None then st
      else (case process_body ev st of
              Inl err \<Rightarrow>
                st\<lparr>alerts := alerts st @ [''Failed to process pages.''], isProcessing := False\<rparr>
            | Inr None \<Rightarrow> st\<lparr>isProcessing := False\<rparr>
            | Inr (Some (blob, name)) \<Rightarrow>
                st\<lparr>resultUrl := Some blob, resultFilename := name, isProcessing := False\<rparr>))"

definition archive_groups :: "error + (artifact \<times> string) option \<Rightarrow> nat list list option" where
  \<comment> \<open>the documents of the archive that a run of the \<open>try\<close> block stores, in entry order\<close>
  "archive_groups r =
     (case r of
        Inr (Some (ZipBlob zp, name)) \<Rightarrow> Some (map snd zp)
      | _ \<Rightarrow> None)"

definition process_disabled :: "state \<Rightarrow> bool" where
  \<comment> \<open>the \<open>disabled\<close> attribute of the button that triggers \<open>processPDF\<close>\<close>
  "process_disabled st =
     (isProcessing st \<or> (mode st = Custom \<and> length (filter selected (pages st)) = 0))"

subsection \<open>Auxiliary notions for the statements\<close>

definition add_range :: "jsset \<Rightarrow> nat list \<Rightarrow> jsset" where
  \<comment> \<open>adding the page indices \<open>ks\<close> to a set, in order\<close>
  "add_range S ks = foldl (\<lambda>S k. set_add (num k) S) S ks"

definition whole :: "jsnum \<Rightarrow> bool" where
  \<comment> \<open>\<open>NaN\<close>, or a whole number from 0 up to \<open>2^53 - 1\<close>\<close>
  "whole v = (case v of
                NaN \<Rightarrow> True
              | Fin q \<Rightarrow> 0 \<le> q \<and> q < 2 ^ 53 \<and> q = of_int \<lfloor>q\<rfloor>
              | _ \<Rightarrow> False)"

definition whole_tokens :: "string \<Rightarrow> bool" where
  \<comment> \<open>every number written in the range string is a whole number below \<open>2^53\<close>\<close>
  "whole_tokens input =
     list_all (\<lambda>part. list_all (\<lambda>piece. whole (Number piece)) (split CHR ''-'' (trim part)))
       (split CHR '','' input)"

definition ltrim :: "string \<Rightarrow> string" where
  "ltrim s = dropWhile is_ws s"

definition rtrim :: "string \<Rightarrow> string" where
  "rtrim s = rev (dropWhile is_ws (rev s))"

text \<open>Example states.\<close>

definition page :: "nat \<Rightarrow> bool \<Rightarrow> PagePreview" where
  "page i sel = \<lparr>index = i, imageUrl = [], selected = sel\<rparr>"

definition custom_state :: "PagePreview list \<Rightarrow> string \<Rightarrow> state" where
  "custom_state ps input =
     \<lparr>file' = Some ''a.pdf'', pages = ps, mode = Custom, outputMode = Single, fixedRange = 1,
      isLoading = False, isProcessing = False, rangeInput = input, resultUrl = None,
      resultFilename = [], alerts = []\<rparr>"

definition fixed_state :: "PagePreview list \<Rightarrow> nat \<Rightarrow> state" where
  "fixed_state ps k = (custom_state ps [])\<lparr>mode := Fixed, fixedRange := k\<rparr>"

definition separate_state :: "PagePreview list \<Rightarrow> state" where
  "separate_state ps = (custom_state ps [])\<lparr>outputMode := Separate\<rparr>"

section \<open>Rounding is exact on small dyadic numbers\<close>

lemma pow2_powi: "pow2 e = 2 powi e"
  by (simp add: pow2_def power_int_def inverse_eq_divide power_one_over)

lemma pow2_pos: "0 < pow2 e" by (simp add: pow2_def)

lemma pow2_add: "pow2 (a + b) = pow2 a * pow2 b"
  by (simp add: pow2_powi power_int_add)

lemma pow2_mono: "a \<le> b \<Longrightarrow> pow2 a \<le> pow2 b"
  by (simp add: pow2_powi power_int_increasing)

lemma pow2_strict_mono: "a < b \<Longrightarrow> pow2 a < pow2 b"
  by (simp add: pow2_powi power_int_strict_increasing)

lemma pow2_nat: "pow2 (int n) = 2 ^ n"
  by (simp add: pow2_def)

lemma bitlen_rat_bounds:
  assumes "0 < p"
  shows "pow2 (bitlen p - 1) \<le> of_int p" and "of_int p < pow2 (bitlen p)"
proof -
  have b: "1 \<le> bitlen p" using assms bitlen_eq_zero_iff[of p] bitlen_nonneg[of p] by linarith
  from bitlen_bounds[OF assms] have 1: "2 ^ nat (bitlen p - 1) \<le> p" and 2: "p < 2 ^ nat (bitlen p)"
    by auto
  have "(of_int (2 ^ nat (bitlen p - 1)) :: rat) \<le> of_int p" using 1 of_int_le_iff by blast
  then show "pow2 (bitlen p - 1) \<le> of_int p" using b by (simp add: pow2_def)
  have "(of_int p :: rat) < of_int (2 ^ nat (bitlen p))" using 2 of_int_less_iff by blast
  then show "of_int p < pow2 (bitlen p)" using b by (simp add: pow2_def)
qed

lemma flog2_lower: assumes "0 < x" shows "pow2 (flog2 x) \<le> x"
proof -
  obtain p q where pq: "quotient_of x = (p, q)" by (cases "quotient_of x")
  have q: "0 < q" using pq quotient_of_denom_pos by blast
  have x: "x = of_int p / of_int q" using pq quotient_of_div by blast
  have p: "0 < p" using assms q x by (simp add: zero_less_divide_iff)
  let ?d = "bitlen p - bitlen q"
  have "pow2 (?d - 1) * of_int q \<le> pow2 (?d - 1) * pow2 (bitlen q)"
    using bitlen_rat_bounds(2)[OF q] pow2_pos[of "?d - 1"] by (simp add: less_imp_le)
  also have "\<dots> = pow2 (bitlen p - 1)"
    by (simp add: pow2_add[symmetric])
  also have "\<dots> \<le> of_int p" by (rule bitlen_rat_bounds(1)[OF p])
  finally have "pow2 (?d - 1) \<le> x"
    using q by (simp add: x pos_le_divide_eq)
  then show ?thesis
    by (simp add: flog2_def pq Let_def)
qed

lemma round_even_int: "round_even (of_int z) = z"
  by (simp add: round_even_def)

lemma fl_exact:
  assumes x: "x = of_int m * pow2 k" and m: "\<bar>m\<bar> < 2 ^ 53" and k: "- 1074 \<le> k" "k \<le> 971"
  shows "fl x = Fin x"
proof (cases "x = 0")
  case True
  then show ?thesis by (simp add: fl_def)
next
  case False
  define e where "e = max (- 1074) (flog2 \<bar>x\<bar> - 52)"
  have ax: "0 < \<bar>x\<bar>" using False by simp
  have "\<bar>x\<bar> = of_int \<bar>m\<bar> * pow2 k"
    using pow2_pos[of k] by (simp add: x abs_mult)
  also have "\<dots> < of_int (2 ^ 53) * pow2 k"
    using m pow2_pos[of k] by (simp only: mult_less_cancel_right_pos of_int_less_iff)
  also have "\<dots> = pow2 (k + 53)"
  proof -
    have "(of_int (2 ^ 53) :: rat) = pow2 53" by (simp add: pow2_def)
    then show ?thesis by (simp only: pow2_add mult.commute)
  qed
  finally have up: "\<bar>x\<bar> < pow2 (k + 53)" .
  have "flog2 \<bar>x\<bar> < k + 53"
  proof (rule ccontr)
    assume "\<not> flog2 \<bar>x\<bar> < k + 53"
    then have "pow2 (k + 53) \<le> pow2 (flog2 \<bar>x\<bar>)" by (simp add: pow2_mono)
    with flog2_lower[OF ax] up show False by linarith
  qed
  then have ek: "e \<le> k" using k by (simp add: e_def)
  have "pow2 k = pow2 (k - e) * pow2 e" by (simp add: pow2_add[symmetric])
  also have "pow2 (k - e) = of_int (2 ^ nat (k - e))" using ek by (simp add: pow2_def)
  finally have q: "x / pow2 e = of_int (m * 2 ^ nat (k - e))"
    using pow2_pos[of e] by (simp add: x)
  have "of_int (round_even (x / pow2 e)) * pow2 e = x / pow2 e * pow2 e"
    by (simp only: q round_even_int)
  also have "\<dots> = x" using pow2_pos[of e] by simp
  finally have r: "of_int (round_even (x / pow2 e)) * pow2 e = x" .
  have "pow2 (k + 53) \<le> pow2 1024" using k by (intro pow2_mono) simp
  then have b: "\<bar>x\<bar> < 2 ^ 1024" using up by (simp add: pow2_def)
  then have "\<not> 2 ^ 1024 \<le> x" "\<not> x \<le> - (2 ^ 1024)" by linarith+
  then show ?thesis using False r
    by (simp add: fl_def Let_def e_def[symmetric])
qed

lemma fl_of_int: "\<bar>z\<bar> < 2 ^ 53 \<Longrightarrow> fl (of_int z) = Fin (of_int z)"
  using fl_exact[of "of_int z" z 0] by (simp add: pow2_def)

lemma fl_of_nat: "n < 2 ^ 53 \<Longrightarrow> fl (of_nat n) = Fin (of_nat n)"
  using fl_of_int[of "int n"] by simp

lemma fl_half: "\<bar>z\<bar> < 2 ^ 53 \<Longrightarrow> fl (of_int z / 2) = Fin (of_int z / 2)"
  using fl_exact[of "of_int z / 2" z "- 1"] by (simp add: pow2_def)

section \<open>Arithmetic on whole numbers is exact\<close>

lemma fl_of_nat_le: "n \<le> 2 ^ 53 \<Longrightarrow> fl (of_nat n) = Fin (of_nat n)"
proof (cases "n = 2 ^ 53")
  case True
  have "fl (of_int (2 ^ 52) * pow2 1) = Fin (of_int (2 ^ 52) * pow2 1)"
    by (rule fl_exact[of _ "2 ^ 52" 1]) simp_all
  then show ?thesis using True by (simp add: pow2_def)
next
  case False
  assume "n \<le> 2 ^ 53"
  with False have "n < 2 ^ 53" by simp
  then show ?thesis by (rule fl_of_nat)
qed

lemma js_sub_one: "js_sub (num i) (num (Suc 0)) = fl (of_nat i - 1)" 
  by (simp add: js_sub_def num_def)
lemma of_nat_pred: "0 < i \<Longrightarrow> (of_nat i :: rat) - 1 = of_nat (i - 1)" 
  by (cases i) simp_all
lemma fl_of_nat_pred: "0 < i \<Longrightarrow> i \<le> 2 ^ 53 \<Longrightarrow> fl (of_nat (i - 1)) = Fin (of_nat (i - 1))"
  by (rule fl_of_nat_le) arith
lemma js_sub_num: "0 < i \<Longrightarrow> i \<le> 2 ^ 53 \<Longrightarrow> js_sub (num i) (num (Suc 0)) = num (i - 1)"
proof -
  assume i: "0 < i" "i \<le> 2 ^ 53"
  have "js_sub (num i) (num (Suc 0)) = fl (of_nat i - 1)" by (rule js_sub_one)
  also have "\<dots> = fl (of_nat (i - 1))" by (simp only: of_nat_pred[OF i(1)])
  also have "\<dots> = Fin (of_nat (i - 1))" by (rule fl_of_nat_pred[OF i])
  finally show ?thesis by (simp only: num_def)
qed

lemma js_add_num: "i < 2 ^ 53 \<Longrightarrow> js_add (num i) (num (Suc 0)) = num (Suc i)"
  using fl_of_nat_le[of "Suc i"] by (simp add: num_def add.commute)

lemma js_cmp_num [simp]:
  "js_le (num a) (num b) = (a \<le> b)" "js_lt (num a) (num b) = (a < b)" "js_gt (num a) (num b) = (b < a)"
  by (simp_all add: num_def js_gt_def)

lemma num_inj [simp]: "(num a = num b) = (a = b)"
  by (simp add: num_def)

lemma add_range_Nil [simp]: "add_range S [] = S"
  by (simp add: add_range_def)

lemma add_range_Cons [simp]: "add_range S (k # ks) = add_range (set_add (num k) S) ks"
  by (simp add: add_range_def)

lemma range_loop_nat:
  "b < 2 ^ 53 \<Longrightarrow> range_loop (num a) (num b) n S = Some (add_range S [a - 1 ..< min b n])"
proof (induction "Suc b - a" arbitrary: a S)
  case 0
  then have "b < a" by simp
  then show ?case by (subst range_loop.simps) simp
next
  case (Suc d)
  then have ab: "a \<le> b" by simp
  then have a53: "a < 2 ^ 53" "a \<le> 2 ^ 53" using Suc.prems by simp_all
  let ?S1 = "if 0 < a \<and> a \<le> n then set_add (num (a - 1)) S else S"
  have "range_loop (num a) (num b) n S =
        range_loop (js_add (num a) (num (Suc 0))) (num b) n
          (if 0 < a \<and> a \<le> n then set_add (js_sub (num a) (num (Suc 0))) S else S)"
    using ab by (subst range_loop.simps) simp
  also have "\<dots> = range_loop (num (Suc a)) (num b) n ?S1"
    using js_add_num[OF a53(1)] js_sub_num[OF _ a53(2)] by simp
  finally have step: "range_loop (num a) (num b) n S = range_loop (num (Suc a)) (num b) n ?S1" .
  have ih: "range_loop (num (Suc a)) (num b) n ?S1 = Some (add_range ?S1 [a ..< min b n])"
    using Suc.hyps(1)[of "Suc a" ?S1] Suc.hyps(2) Suc.prems by simp
  have "add_range ?S1 [a ..< min b n] = add_range S [a - 1 ..< min b n]"
  proof (cases "0 < a \<and> a \<le> n")
    case True
    then have "[a - 1 ..< min b n] = (a - 1) # [a ..< min b n]"
      using ab by (cases a) (simp_all add: upt_conv_Cons)
    then show ?thesis using True by simp
  next
    case False
    then show ?thesis by (cases "a = 0") auto
  qed
  with step ih show ?case by simp
qed

lemma set_add_range: "set (add_range S ks) = set S \<union> num ` set ks"
  by (induction ks arbitrary: S) (auto simp: set_add_def)

lemma distinct_set_add: "distinct S \<Longrightarrow> distinct (set_add v S)"
  by (simp add: set_add_def)

lemma distinct_add_range: "distinct S \<Longrightarrow> distinct (add_range S ks)"
  by (induction ks arbitrary: S) (auto simp: set_add_def)

section \<open>The set built by the parser has no repeated member\<close>

lemma range_loop_distinct_aux:
  assumes "range_loop i e n S = Some S'"
  shows "distinct S \<longrightarrow> distinct S'"
  by (rule range_loop.raw_induct[OF _ assms]) (auto split: if_splits simp: distinct_set_add)

lemma range_loop_distinct:
  "range_loop i e n S = Some S' \<Longrightarrow> distinct S \<Longrightarrow> distinct S'"
  using range_loop_distinct_aux by blast

lemma apply_part_distinct:
  "apply_part n S part = Some S' \<Longrightarrow> distinct S \<Longrightarrow> distinct S'"
  by (auto simp: apply_part_def Let_def distinct_set_add split: if_splits dest: range_loop_distinct)

lemma forEach_parts_distinct:
  "forEach_parts n parts S = Some S' \<Longrightarrow> distinct S \<Longrightarrow> distinct S'"
  by (induction parts arbitrary: S) (auto split: option.splits dest: apply_part_distinct)

lemma selectedIndices_distinct:
  "selectedIndices input n = Some S \<Longrightarrow> distinct S"
  unfolding selectedIndices_def using forEach_parts_distinct[of n _ "[]" S] by simp

section \<open>Evaluating the parser on concrete input\<close>

lemma fl_numeral: "(numeral w :: nat) \<le> 2 ^ 53 \<Longrightarrow> fl (numeral w) = num (numeral w)"
  using fl_of_nat_le[of "numeral w"] by (simp add: num_def)

lemma fl_one: "fl 1 = num 1"
  using fl_of_nat_le[of 1] by (simp add: num_def)

lemma Fin_zero: "Fin 0 = num 0"
  by (simp add: num_def)

lemma num_not_NaN [simp]: "num a \<noteq> NaN" "\<not> isNaN (num a)"
  by (simp_all add: num_def isNaN_def)

lemma js_min_num [simp]: "js_min (num a) (num b) = num (min a b)"
  by (simp add: js_min_def min_def)

lemma js_max_num [simp]: "js_max (num a) (num b) = num (max a b)"
  by (simp add: js_max_def max_def)

lemmas number_defs = Number_def trim_def is_ws_def non_decimal_literal_def str_decimal_literal_def
  str_unsigned_decimal_def exponent_part_def is_digit_def digits_val_def radix_val_def hex_val_def
  is_radix_digit_def pow10_def Let_def

lemmas parse_eval = selectedIndices_def apply_part_def number_defs fl_numeral fl_one Fin_zero
  range_loop_nat js_sub_num set_add_def isNaN_def upt_rec

lemma parse_1_3_5_8: "selectedIndices ''1-3, 5, 8'' 10 = Some (map num [0, 1, 2, 4, 7])"
  by (simp add: parse_eval)

section \<open>Ranges on which the loop does not return\<close>

text \<open>
  \<open>flog2\<close> is the binary exponent, so \<open>fl\<close> keeps 53 significant bits: \<open>2^53 + 1\<close> rounds
  to \<open>2^53\<close>. A loop counter that reaches \<open>2^53\<close> is not advanced by \<open>i++\<close>, and a loop up to
  \<open>Infinity\<close> or up to \<open>2^53\<close> never ends: on such tokens \<open>applyRange\<close> does not return.
\<close>

lemma flog2_upper: assumes "0 < x" shows "x < pow2 (flog2 x + 1)"
proof -
  obtain p q where pq: "quotient_of x = (p, q)" by (cases "quotient_of x")
  have q: "0 < q" using pq quotient_of_denom_pos by blast
  have x: "x = of_int p / of_int q" using pq quotient_of_div by blast
  have p: "0 < p" using assms q x by (simp add: zero_less_divide_iff)
  let ?d = "bitlen p - bitlen q"
  have "of_int p < pow2 (bitlen p)" by (rule bitlen_rat_bounds(2)[OF p])
  also have "\<dots> = pow2 (?d + 1) * pow2 (bitlen q - 1)"
    by (simp add: pow2_add[symmetric])
  also have "\<dots> \<le> pow2 (?d + 1) * of_int q"
    using bitlen_rat_bounds(1)[OF q] pow2_pos[of "?d + 1"] by simp
  finally have up: "x < pow2 (?d + 1)"
    using q by (simp add: x pos_divide_less_eq)
  show ?thesis
  proof (cases "pow2 ?d \<le> x")
    case True
    then show ?thesis using up by (simp add: flog2_def pq Let_def)
  next
    case False
    then show ?thesis by (simp add: flog2_def pq Let_def)
  qed
qed

lemma flog2_unique:
  assumes "pow2 d \<le> x" "x < pow2 (d + 1)"
  shows "flog2 x = d"
proof -
  have x: "0 < x" using assms(1) pow2_pos[of d] by linarith
  have "\<not> flog2 x < d"
  proof
    assume "flog2 x < d"
    then have "pow2 (flog2 x + 1) \<le> pow2 d" by (intro pow2_mono) simp
    with flog2_upper[OF x] assms(1) show False by linarith
  qed
  moreover have "\<not> d < flog2 x"
  proof
    assume "d < flog2 x"
    then have "pow2 (d + 1) \<le> pow2 (flog2 x)" by (intro pow2_mono) simp
    with flog2_lower[OF x] assms(2) show False by linarith
  qed
  ultimately show ?thesis by simp
qed

lemma round_even_tie: "even z \<Longrightarrow> round_even (of_int z + 1 / 2) = z"
proof -
  assume z: "even z"
  have f: "\<lfloor>of_int z + 1 / 2 :: rat\<rfloor> = z" by (rule floor_unique) simp_all
  show ?thesis using z by (simp add: round_even_def Let_def f)
qed

lemma fl_ties_to_even: "fl (2 ^ 53 + 1) = Fin (2 ^ 53)"
proof -
  let ?x = "2 ^ 53 + 1 :: rat"
  have f: "flog2 \<bar>?x\<bar> = 53"
    by (rule flog2_unique) (simp_all add: pow2_def)
  have e: "max (- 1074) (flog2 \<bar>?x\<bar> - 52) = 1" by (simp only: f)
  have x0: "(?x = 0) = False" by simp
  have q: "?x / pow2 1 = of_int (2 ^ 52) + 1 / 2" by (simp add: pow2_def)
  have "round_even (?x / pow2 1) = 2 ^ 52"
    by (simp only: q) (rule round_even_tie, simp)
  then have r: "of_int (round_even (?x / pow2 1)) * pow2 1 = (2 ^ 53 :: rat)"
    by (simp add: pow2_def)
  have "fl ?x = (if 2 ^ 1024 \<le> (2 ^ 53 :: rat) then PInf
                 else if (2 ^ 53 :: rat) \<le> - (2 ^ 1024) then NInf else Fin (2 ^ 53))"
    by (simp only: fl_def Let_def e x0 if_False r)
  then show ?thesis by simp
qed

lemma counter_stalls: "js_add (num (2 ^ 53)) (num 1) = num (2 ^ 53)"
  using fl_ties_to_even by (simp add: num_def)




lemma range_loop_stalls_aux:
  assumes "range_loop i e n S = Some S'"
  shows "e = num (2 ^ 53) \<and> (\<exists>a. a \<le> 2 ^ 53 \<and> i = num a) \<longrightarrow> False"
proof (rule range_loop.raw_induct[OF _ assms])
  fix f i e n S S'
  assume ih: "\<And>i e n S S'. f i e n S = Some S' \<Longrightarrow>
                e = num (2 ^ 53) \<and> (\<exists>a. a \<le> 2 ^ 53 \<and> i = num a) \<longrightarrow> False"
    and b: "(if js_le i e
             then f (js_add i (num 1)) e n
                    (if js_gt i (num 0) \<and> js_le i (num n) then set_add (js_sub i (num 1)) S else S)
             else Some S) = Some S'"
  show "e = num (2 ^ 53) \<and> (\<exists>a. a \<le> 2 ^ 53 \<and> i = num a) \<longrightarrow> False"
  proof
    assume h: "e = num (2 ^ 53) \<and> (\<exists>a. a \<le> 2 ^ 53 \<and> i = num a)"
    then obtain a where a: "a \<le> 2 ^ 53" "i = num a" by blast
    have le: "js_le i e" using h a by simp
    have "\<exists>a'. a' \<le> 2 ^ 53 \<and> js_add i (num 1) = num a'"
    proof (cases "a = 2 ^ 53")
      case True
      then show ?thesis using counter_stalls a(2) by auto
    next
      case False
      then have "a < 2 ^ 53" using a(1) by simp
      then have "js_add (num a) (num (Suc 0)) = num (Suc a)" "Suc a \<le> 2 ^ 53"
        by (simp_all add: js_add_num)
      then show ?thesis using a(2) by auto
    qed
    moreover have "f (js_add i (num 1)) e n
                 (if js_gt i (num 0) \<and> js_le i (num n) then set_add (js_sub i (num 1)) S else S)
               = Some S'"
      using b le by simp
    ultimately show False using ih h by blast
  qed
qed

lemma range_loop_stalls: "a \<le> 2 ^ 53 \<Longrightarrow> range_loop (num a) (num (2 ^ 53)) n S = None"
  using range_loop_stalls_aux[of "num a" "num (2 ^ 53)" n S]
  by (cases "range_loop (num a) (num (2 ^ 53)) n S") auto

lemma Number_Infinity: "Number ''Infinity'' = PInf"
  by (simp add: number_defs)


lemma parse_to_2_53: "selectedIndices ''1-9007199254740992'' n = None"
proof -
  have "map Number (split CHR ''-'' (trim ''1-9007199254740992'')) = [num 1, num (2 ^ 53)]"
    by (simp add: number_defs fl_one fl_numeral)
  then have ap: "apply_part n [] ''1-9007199254740992'' = range_loop (num 1) (num (2 ^ 53)) n []"
    by (simp add: apply_part_def Let_def)
  have "(1::nat) \<le> 2 ^ 53" by (rule one_le_power) simp
  then have rl: "range_loop (num 1) (num (2 ^ 53)) n [] = None"
    by (rule range_loop_stalls)
  have sp: "split CHR '','' ''1-9007199254740992'' = [''1-9007199254740992'']" by simp
  show ?thesis
    unfolding selectedIndices_def sp forEach_parts.simps ap rl by simp
qed

section \<open>The example \<open>1-3, 5, 8\<close>\<close>

text \<open>
  C3 (as stated): parsing \<open>1-3, 5, 8\<close> against a 10-page document yields the index set
  \<open>{0,1,2,5,7}\<close>. This fails: the token \<open>5\<close> selects page 5, whose zero-based index is 4.
\<close>

theorem C3_counterexample:
  "map_option set (selectedIndices ''1-3, 5, 8'' 10) \<noteq> Some (num ` {0, 1, 2, 5, 7})"
proof
  assume "map_option set (selectedIndices ''1-3, 5, 8'' 10) = Some (num ` {0, 1, 2, 5, 7})"
  then have "set (map num [0, 1, 2, 4, 7]) = num ` {0, 1, 2, 5, 7}"
    by (simp only: parse_1_3_5_8 option.map option.inject)
  moreover have "num 4 \<in> set (map num [0, 1, 2, 4, 7])" by simp
  ultimately have "num 4 \<in> num ` {0, 1, 2, 5, 7}" by (simp only:)
  then show False by simp
qed

text \<open>
  C3 (amended): parsing \<open>1-3, 5, 8\<close> against a 10-page document yields exactly the
  zero-based indices 0, 1, 2, 4, 7, in this order of insertion; as a set, \<open>{0,1,2,4,7}\<close>.
\<close>

theorem C3_parse_example:
  "selectedIndices ''1-3, 5, 8'' 10 = Some (map num [0, 1, 2, 4, 7])
   \<and> map_option set (selectedIndices ''1-3, 5, 8'' 10) = Some (num ` {0, 1, 2, 4, 7})"
  by (simp add: parse_1_3_5_8)

section \<open>Splitting, trimming and numerals\<close>

lemma split_no_sep: "sep \<notin> set s \<Longrightarrow> split sep s = [s]"
  by (induction s) auto

lemma split_at_sep: "sep \<notin> set a \<Longrightarrow> split sep (a @ sep # b) = a # split sep b"
  by (induction a) auto

lemma dropWhile_append_stop: "\<not> P c \<Longrightarrow> dropWhile P (xs @ c # ys) = dropWhile P xs @ c # ys"
  by (induction xs) auto

lemma trim_alt: "trim s = rtrim (ltrim s)"
  by (simp add: trim_def ltrim_def rtrim_def)

lemma rtrim_append_stop: "\<not> is_ws c \<Longrightarrow> rtrim (xs @ c # ys) = xs @ c # rtrim ys"
  using dropWhile_append_stop[of is_ws c "rev ys" "rev xs"] by (simp add: rtrim_def)

lemma ltrim_append_stop: "\<not> is_ws c \<Longrightarrow> ltrim (xs @ c # ys) = ltrim xs @ c # ys"
  by (simp add: ltrim_def dropWhile_append_stop)

lemma ltrim_idem [simp]: "ltrim (ltrim s) = ltrim s"
  by (simp add: ltrim_def)

lemma rtrim_idem [simp]: "rtrim (rtrim s) = rtrim s"
  by (simp add: rtrim_def)

lemma ltrim_all_ws: "list_all is_ws s \<Longrightarrow> ltrim s = []"
  by (simp add: ltrim_def list_all_iff)

lemma rtrim_all_ws: "list_all is_ws s \<Longrightarrow> rtrim s = []"
  by (simp add: rtrim_def list_all_iff)

lemma ltrim_prefix: "list_all is_ws xs \<Longrightarrow> \<not> is_ws c \<Longrightarrow> ltrim (xs @ c # zs) = c # zs"
  by (induction xs) (simp_all add: ltrim_def)

lemma ltrim_rtrim_commute: "ltrim (rtrim s) = rtrim (ltrim s)"
proof (cases "list_all is_ws s")
  case True
  then show ?thesis by (simp add: ltrim_all_ws rtrim_all_ws)
next
  case False
  then have "\<exists>c\<in>set s. \<not> is_ws c" by (simp add: list_all_iff)
  from split_list_first_prop[OF this]
  obtain xs c ys where s: "s = xs @ c # ys" and c: "\<not> is_ws c" and "\<forall>y\<in>set xs. \<not> \<not> is_ws y"
    by blast
  then have xs: "list_all is_ws xs" by (simp add: list_all_iff)
  have "ltrim (rtrim s) = c # rtrim ys"
    using xs c by (simp add: s rtrim_append_stop ltrim_prefix)
  moreover have "rtrim (ltrim s) = c # rtrim ys"
    using xs c rtrim_append_stop[of c "[]" ys] by (simp add: s ltrim_prefix)
  ultimately show ?thesis by simp
qed

lemma trim_ltrim [simp]: "trim (ltrim s) = trim s"
  by (simp add: trim_alt)

lemma trim_rtrim [simp]: "trim (rtrim s) = trim s"
  by (simp add: trim_alt ltrim_rtrim_commute)

lemma Number_ltrim [simp]: "Number (ltrim s) = Number s"
  by (simp add: Number_def)

lemma Number_rtrim [simp]: "Number (rtrim s) = Number s"
  by (simp add: Number_def)

lemma dash_not_ws: "\<not> is_ws CHR ''-''" "\<not> is_ws CHR '',''"
  by (simp_all add: is_ws_def)

lemma set_ltrim: "set (ltrim s) \<subseteq> set s"
  by (simp add: ltrim_def set_dropWhileD subsetI)

lemma set_rtrim: "set (rtrim s) \<subseteq> set s"
  using set_dropWhileD[of _ is_ws "rev s"] by (auto simp: rtrim_def)

lemma pieces_of_pair:
  assumes "CHR ''-'' \<notin> set a" "CHR ''-'' \<notin> set b"
  shows "map Number (split CHR ''-'' (trim (a @ ''-'' @ b))) = [Number a, Number b]"
proof -
  have "trim (a @ ''-'' @ b) = ltrim a @ CHR ''-'' # rtrim b"
    by (simp add: trim_alt ltrim_append_stop rtrim_append_stop dash_not_ws)
  moreover have "CHR ''-'' \<notin> set (ltrim a)" "CHR ''-'' \<notin> set (rtrim b)"
    using assms set_ltrim set_rtrim by blast+
  ultimately show ?thesis
    by (simp add: split_at_sep split_no_sep)
qed

lemma js_min_commute: "js_min a b = js_min b a"
  by (cases a; cases b) (auto simp: js_min_def)

lemma js_max_commute: "js_max a b = js_max b a"
  by (cases a; cases b) (auto simp: js_max_def)

lemma apply_part_pair:
  assumes "CHR ''-'' \<notin> set a" "CHR ''-'' \<notin> set b"
  shows "apply_part n S (a @ ''-'' @ b) =
         (if \<not> isNaN (Number a) \<and> \<not> isNaN (Number b)
          then range_loop (js_min (Number a) (Number b)) (js_max (Number a) (Number b)) n S
          else Some S)"
  unfolding apply_part_def pieces_of_pair[OF assms] by (simp add: Let_def)

lemma selectedIndices_pair:
  assumes "CHR '','' \<notin> set a \<union> set b" "CHR ''-'' \<notin> set a \<union> set b"
  shows "selectedIndices (a @ ''-'' @ b) n =
         (if \<not> isNaN (Number a) \<and> \<not> isNaN (Number b)
          then range_loop (js_min (Number a) (Number b)) (js_max (Number a) (Number b)) n []
          else Some [])"
proof -
  have "CHR '','' \<notin> set (a @ ''-'' @ b)" using assms(1) by simp
  then have "split CHR '','' (a @ ''-'' @ b) = [a @ ''-'' @ b]" by (rule split_no_sep)
  moreover have "apply_part n [] (a @ ''-'' @ b) =
         (if \<not> isNaN (Number a) \<and> \<not> isNaN (Number b)
          then range_loop (js_min (Number a) (Number b)) (js_max (Number a) (Number b)) n []
          else Some [])"
    using assms(2) by (intro apply_part_pair) auto
  ultimately show ?thesis
    by (simp add: selectedIndices_def split: option.splits)
qed

lemma selectedIndices_swap:
  assumes "CHR '','' \<notin> set a \<union> set b" "CHR ''-'' \<notin> set a \<union> set b"
  shows "selectedIndices (a @ ''-'' @ b) n = selectedIndices (b @ ''-'' @ a) n"
proof -
  have "CHR '','' \<notin> set b \<union> set a" "CHR ''-'' \<notin> set b \<union> set a" using assms by auto
  then show ?thesis
    using selectedIndices_pair[OF assms, of n] selectedIndices_pair[of b a n]
    by (simp add: js_min_commute[of "Number a"] js_max_commute[of "Number a"] conj_commute)
qed

lemma is_digit_char_of: "(d::nat) < 10 \<Longrightarrow> is_digit (char_of (48 + d))"
  by (simp add: is_digit_def)

lemma hex_val_char_of: "(d::nat) < 10 \<Longrightarrow> hex_val (char_of (48 + d)) = Some d"
  by (simp add: hex_val_def)

lemma show_nat_digits: "list_all is_digit (show_nat n)"
proof (induction n rule: show_nat.induct)
  case (1 n)
  show ?case
  proof (cases "n < 10")
    case True
    then show ?thesis by (subst show_nat.simps) (simp add: is_digit_char_of)
  next
    case False
    then show ?thesis using 1 by (subst show_nat.simps) (simp add: is_digit_char_of)
  qed
qed

lemma show_nat_nonempty: "show_nat n \<noteq> []"
  by (subst show_nat.simps) simp

lemma radix_val_snoc:
  "radix_val b (ds @ [c]) = b * radix_val b ds + (case hex_val c of None \<Rightarrow> 0 | Some d \<Rightarrow> d)"
  by (simp add: radix_val_def)

lemma digits_val_show_nat: "digits_val (show_nat n) = n"
proof (induction n rule: show_nat.induct)
  case (1 n)
  show ?case
  proof (cases "n < 10")
    case True
    then show ?thesis
      by (subst show_nat.simps) (simp add: digits_val_def radix_val_def hex_val_char_of)
  next
    case False
    then have "digits_val (show_nat (n div 10)) = n div 10" using 1 by simp
    then show ?thesis using False
      by (subst show_nat.simps) (simp add: digits_val_def radix_val_snoc hex_val_char_of)
  qed
qed

lemma show_nat_inj: "show_nat a = show_nat b \<Longrightarrow> a = b"
  using digits_val_show_nat by metis

lemma digit_facts:
  assumes "is_digit c"
  shows "\<not> is_ws c" "c \<noteq> CHR ''-''" "c \<noteq> CHR '',''" "c \<noteq> CHR ''+''" "c \<noteq> CHR ''.''"
    "c \<noteq> CHR ''b''" "c \<noteq> CHR ''B''" "c \<noteq> CHR ''o''" "c \<noteq> CHR ''O''"
    "c \<noteq> CHR ''x''" "c \<noteq> CHR ''X''" "c \<noteq> CHR ''I''" "c \<noteq> CHR ''_''"
  using assms by (auto simp: is_digit_def is_ws_def)

lemma dropWhile_none: "\<forall>c\<in>set s. \<not> P c \<Longrightarrow> dropWhile P s = s"
  by (cases s) auto

lemma trim_no_ws: "\<forall>c\<in>set s. \<not> is_ws c \<Longrightarrow> trim s = s"
  by (simp add: trim_def dropWhile_none)

lemma Number_digits:
  assumes ne: "ds \<noteq> []" and dg: "list_all is_digit ds"
  shows "Number ds = fl (of_nat (digits_val ds))"
proof -
  have all: "\<forall>c\<in>set ds. is_digit c" using dg by (simp add: list_all_iff)
  then have t: "trim ds = ds" by (intro trim_no_ws) (auto dest: digit_facts(1))
  obtain z r where ds: "ds = z # r" using ne by (cases ds) auto
  have z: "is_digit z" using all ds by simp
  have nd: "non_decimal_literal ds = None"
  proof (cases r)
    case Nil
    then show ?thesis by (simp add: non_decimal_literal_def ds)
  next
    case (Cons x r')
    then have "is_digit x" using all ds by simp
    then show ?thesis
      using digit_facts(6-11)[of x] by (simp add: non_decimal_literal_def ds Cons)
  qed
  have tw: "takeWhile is_digit ds = ds" "dropWhile is_digit ds = []" using all by simp_all
  have ud: "str_unsigned_decimal ds = Some (of_nat (digits_val ds))"
    using ne by (simp add: str_unsigned_decimal_def tw exponent_part_def pow10_def Let_def)
  have inf: "ds \<noteq> ''Infinity''" using z digit_facts(12)[of z] by (auto simp: ds)
  have sd: "str_decimal_literal ds = fl (of_nat (digits_val ds))"
    using z digit_facts(2,4)[of z] inf by (simp add: str_decimal_literal_def ds[symmetric] ud) (simp add: ds)
  show ?thesis using ne by (simp add: Number_def t nd sd)
qed

lemma Number_show_nat: "x \<le> 2 ^ 53 \<Longrightarrow> Number (show_nat x) = num x"
  using Number_digits[OF show_nat_nonempty show_nat_digits, of x]
  by (simp add: digits_val_show_nat fl_of_nat_le num_def)

lemma show_nat_no_sep: "CHR ''-'' \<notin> set (show_nat x)" "CHR '','' \<notin> set (show_nat x)"
  using show_nat_digits[of x] digit_facts(2,3) by (auto simp: list_all_iff)

lemma add_range_empty: "distinct ks \<Longrightarrow> add_range (map num js) ks = map num (js @ ks)" if "set js \<inter> set ks = {}"
  using that
proof (induction ks arbitrary: js)
  case Nil
  then show ?case by simp
next
  case (Cons k ks)
  have "set_add (num k) (map num js) = map num (js @ [k])"
    using Cons.prems by (auto simp: set_add_def)
  moreover have "set (js @ [k]) \<inter> set ks = {}" "distinct ks" using Cons.prems by auto
  ultimately show ?case using Cons.IH[of "js @ [k]"] by simp
qed

lemma add_range_upt: "add_range [] [a ..< b] = map num [a ..< b]"
  using add_range_empty[of "[]" "[a ..< b]"] by simp

lemma selectedIndices_nat_pair:
  assumes "x < 2 ^ 53" "y < 2 ^ 53"
  shows "selectedIndices (show_nat x @ ''-'' @ show_nat y) n =
         Some (map num [min x y - 1 ..< min (max x y) n])"
proof -
  have nx: "Number (show_nat x) = num x" and ny: "Number (show_nat y) = num y"
    using assms by (simp_all add: Number_show_nat)
  have "max x y < 2 ^ 53" using assms by (simp add: max_def)
  then have "range_loop (num (min x y)) (num (max x y)) n [] =
             Some (add_range [] [min x y - 1 ..< min (max x y) n])"
    by (rule range_loop_nat)
  then show ?thesis
    using selectedIndices_pair[of "show_nat x" "show_nat y" n] show_nat_no_sep
    by (simp add: nx ny add_range_upt)
qed

lemma whole_cases: "whole v \<Longrightarrow> v = NaN \<or> (\<exists>a. a < 2 ^ 53 \<and> v = num a)"
proof (cases v)
  case (Fin q)
  assume "whole v"
  then have q: "0 \<le> q" "q < 2 ^ 53" "q = of_int \<lfloor>q\<rfloor>" by (simp_all add: whole_def Fin)
  define a where "a = nat \<lfloor>q\<rfloor>"
  have f0: "0 \<le> \<lfloor>q\<rfloor>" using q(1) by simp
  then have qa: "q = of_nat a" using q(3) by (simp add: a_def)
  have "(of_nat a :: rat) < of_nat (2 ^ 53)" using q(2) qa by simp
  then have "a < 2 ^ 53" by (simp only: of_nat_less_iff)
  then show ?thesis using qa by (auto simp: Fin num_def)
qed (simp_all add: whole_def)

lemma whole_num: "a < 2 ^ 53 \<Longrightarrow> whole (num a)"
proof -
  assume "a < 2 ^ 53"
  then have "(of_nat a :: rat) < of_nat (2 ^ 53)" by (simp only: of_nat_less_iff)
  then show ?thesis by (simp add: whole_def num_def)
qed

lemma apply_part_whole:
  assumes "list_all (\<lambda>piece. whole (Number piece)) (split CHR ''-'' (trim part))"
  shows "\<exists>S'. apply_part n S part = Some S' \<and> set S' \<subseteq> set S \<union> num ` {k. k < n}"
proof -
  define range where "range = map Number (split CHR ''-'' (trim part))"
  have w: "\<forall>v\<in>set range. whole v" using assms by (simp add: range_def list_all_iff)
  have ap: "apply_part n S part =
        (if length range = 1 \<and> \<not> isNaN (range ! 0) then
          Some (if js_gt (range ! 0) (num 0) \<and> js_le (range ! 0) (num n)
                then set_add (js_sub (range ! 0) (num 1)) S else S)
        else if length range = 2 \<and> \<not> isNaN (range ! 0) \<and> \<not> isNaN (range ! 1) then
          range_loop (js_min (range ! 0) (range ! 1)) (js_max (range ! 0) (range ! 1)) n S
        else Some S)"
    unfolding apply_part_def range_def Let_def by (rule refl)
  consider (one) "length range = 1 \<and> \<not> isNaN (range ! 0)"
    | (two) "\<not> (length range = 1 \<and> \<not> isNaN (range ! 0))"
            "length range = 2 \<and> \<not> isNaN (range ! 0) \<and> \<not> isNaN (range ! 1)"
    | (other) "\<not> (length range = 1 \<and> \<not> isNaN (range ! 0))"
            "\<not> (length range = 2 \<and> \<not> isNaN (range ! 0) \<and> \<not> isNaN (range ! 1))"
    by blast
  then show ?thesis
  proof cases
    case one
    then have "whole (range ! 0)" "range ! 0 \<noteq> NaN" using w by (auto simp: isNaN_def)
    then obtain a where a: "a < 2 ^ 53" "range ! 0 = num a" using whole_cases by blast
    show ?thesis
    proof (cases "0 < a \<and> a \<le> n")
      case True
      then have "js_sub (num a) (num (Suc 0)) = num (a - 1)" using a(1) by (intro js_sub_num) simp_all
      then show ?thesis using one True by (auto simp: ap a(2) set_add_def)
    next
      case False
      then show ?thesis using one by (auto simp: ap a(2))
    qed
  next
    case two
    then have "whole (range ! 0)" "range ! 0 \<noteq> NaN"
        "whole (range ! Suc 0)" "range ! Suc 0 \<noteq> NaN"
      using w by (auto simp: isNaN_def)
    then obtain a b where a: "a < 2 ^ 53" "range ! 0 = num a"
      and b: "b < 2 ^ 53" "range ! Suc 0 = num b"
      using whole_cases by blast
    have "max a b < 2 ^ 53" using a(1) b(1) by (simp add: max_def)
    then have "range_loop (num (min a b)) (num (max a b)) n S =
               Some (add_range S [min a b - 1 ..< min (max a b) n])"
      by (rule range_loop_nat)
    then show ?thesis using two by (auto simp: ap a(2) b(2) set_add_range)
  next
    case other
    then have "apply_part n S part = Some S" unfolding ap by (simp only: if_False)
    then show ?thesis by simp
  qed
qed

lemma forEach_parts_whole:
  assumes "list_all (\<lambda>part. list_all (\<lambda>piece. whole (Number piece))
             (split CHR ''-'' (trim part))) parts"
  shows "\<exists>S'. forEach_parts n parts S = Some S' \<and> set S' \<subseteq> set S \<union> num ` {k. k < n}"
  using assms
proof (induction parts arbitrary: S)
  case Nil
  then show ?case by simp
next
  case (Cons part parts)
  then obtain S1 where S1: "apply_part n S part = Some S1" "set S1 \<subseteq> set S \<union> num ` {k. k < n}"
    using apply_part_whole[of part n S] by auto
  from Cons obtain S' where "forEach_parts n parts S1 = Some S'"
      "set S' \<subseteq> set S1 \<union> num ` {k. k < n}"
    by fastforce
  then show ?case using S1 by auto
qed

lemma selectedIndices_whole:
  assumes "whole_tokens input"
  shows "\<exists>S. selectedIndices input n = Some S \<and> distinct S \<and> (\<forall>x\<in>set S. \<exists>k<n. x = num k)"
proof -
  obtain S where S: "selectedIndices input n = Some S" "set S \<subseteq> set [] \<union> num ` {k. k < n}"
    using forEach_parts_whole[of "split CHR '','' input" n "[]"] assms
    by (auto simp: whole_tokens_def selectedIndices_def)
  then show ?thesis using selectedIndices_distinct[OF S(1)] by auto
qed




lemma pages_setPages [simp]: "pages (setPages f st) = f (pages st)"
  by (simp add: setPages_def)


lemma fl_half_pos: "fl (1 / 2) = Fin (1 / 2)"
  using fl_half[of 1] by simp

lemma fl_half_neg: "fl (- (1 / 2)) = Fin (- (1 / 2))"
  using fl_half[of "- 1"] by simp

lemma Number_0_5: "Number ''0.5'' = Fin (1 / 2)"
  by (simp add: number_defs fl_half_pos)

lemma parse_0_5: "selectedIndices ''0.5'' 1 = Some [Fin (- (1 / 2))]"
  by (simp add: selectedIndices_def apply_part_def trim_def is_ws_def Number_0_5 isNaN_def
      js_gt_def js_sub_def num_def fl_half_neg set_add_def)

section \<open>Indices produced by the parser\<close>

text \<open>
  C1 (as stated): for every range string and every page count \<open>N\<close>, every index in the set
  produced by \<open>applyRange\<close> lies in \<open>[0, N)\<close>. This fails on a fractional token: for the
  input \<open>0.5\<close> and one page the test \<open>0 < 0.5 \<and> 0.5 \<le> 1\<close> passes and the set receives
  \<open>0.5 - 1\<close>, which is below 0.
\<close>

theorem C1_counterexample:
  "selectedIndices ''0.5'' 1 = Some [Fin (- (1 / 2))] \<and> js_lt (Fin (- (1 / 2))) (num 0)"
  using parse_0_5 by (simp add: num_def)

text \<open>
  C1 (amended): for every range string and every page count \<open>N\<close>, the set produced by the
  parser has no repeated member; and when every number written in the string is a whole
  number below \<open>2^53\<close>, the parser returns a set and every index in it is a whole number
  in \<open>[0, N)\<close>.
\<close>

theorem C1_indices_in_range:
  "(selectedIndices input n = Some S \<longrightarrow> distinct S) \<and>
   (whole_tokens input \<longrightarrow>
      (\<exists>S'. selectedIndices input n = Some S' \<and> distinct S' \<and> (\<forall>x\<in>set S'. \<exists>k<n. x = num k)))"
  using selectedIndices_distinct[of input n S] selectedIndices_whole[of input n] by blast

lemma whole_tokens_1_3_5_8: "whole_tokens ''1-3, 5, 8''"
  by (simp add: whole_tokens_def number_defs fl_numeral fl_one whole_num)

theorem C1_indices_in_range_witness:
  "selectedIndices ''1-3, 5, 8'' 10 = Some (map num [0, 1, 2, 4, 7]) \<and>
   distinct (map num [0, 1, 2, 4, 7]) \<and>
   whole_tokens ''1-3, 5, 8'' \<and>
   (\<exists>S'. selectedIndices ''1-3, 5, 8'' 10 = Some S' \<and> distinct S' \<and>
      (\<forall>x\<in>set S'. \<exists>k<10. x = num k))"
  using C1_indices_in_range[of "''1-3, 5, 8''" 10 "map num [0, 1, 2, 4, 7]"]
    parse_1_3_5_8 whole_tokens_1_3_5_8
  by blast

section \<open>Tokens with an empty side\<close>

text \<open>
  C4: tokens that are not a single number or a dash-separated pair of numbers, such as
  \<open>3-\<close> and \<open>-5\<close>, are to contribute no index. In the code the empty side of such a token
  is converted by \<open>Number\<close> to 0, not to \<open>NaN\<close>, so the \<open>isNaN\<close> guard lets it pass: \<open>3-\<close>
  selects pages 1 to 3 and \<open>-5\<close> pages 1 to 5. The parse of \<open>7,3-\<close> differs from the parse
  of \<open>7\<close>.
\<close>

theorem C4_open_range_selects:
  "selectedIndices ''7,3-'' 10 = Some (map num [6, 0, 1, 2]) \<and>
   selectedIndices ''7'' 10 = Some (map num [6]) \<and>
   selectedIndices ''7,3-'' 10 \<noteq> selectedIndices ''7'' 10 \<and>
   selectedIndices ''-5'' 10 = Some (map num [0, 1, 2, 3, 4]) \<and>
   selectedIndices [] 10 = Some []"
  by (simp add: parse_eval)

section \<open>The range replaces the selection\<close>





section \<open>A range between fractional numbers\<close>

text \<open>
  A fractional start makes the loop counter fractional: \<open>1.5-3\<close> puts \<open>0.5\<close> and \<open>1.5\<close> into
  the set, which match no page.
\<close>

lemma fl_halves: "fl (3 / 2) = Fin (3 / 2)" "fl (5 / 2) = Fin (5 / 2)" "fl (7 / 2) = Fin (7 / 2)"
  using fl_half[of 3] fl_half[of 5] fl_half[of 7] by simp_all

lemma parse_fractional_range: "selectedIndices ''1.5-3'' 10 = Some [Fin (1 / 2), Fin (3 / 2)]"
proof -
  have n: "map Number (split CHR ''-'' (trim ''1.5-3'')) = [Fin (3 / 2), Fin 3]"
    by (simp add: number_defs fl_halves fl_numeral num_def)
  have l3: "range_loop (Fin (7 / 2)) (Fin 3) 10 [Fin (1 / 2), Fin (3 / 2)] =
            Some [Fin (1 / 2), Fin (3 / 2)]"
    by (subst range_loop.simps) simp
  have l2: "range_loop (Fin (5 / 2)) (Fin 3) 10 [Fin (1 / 2)] = Some [Fin (1 / 2), Fin (3 / 2)]"
    by (subst range_loop.simps)
      (simp add: l3 num_def js_gt_def js_sub_def fl_halves set_add_def)
  have l1: "range_loop (Fin (3 / 2)) (Fin 3) 10 [] = Some [Fin (1 / 2), Fin (3 / 2)]"
    by (subst range_loop.simps)
      (simp add: l2 num_def js_gt_def js_sub_def fl_halves fl_half_pos set_add_def)
  have sp: "split CHR '','' ''1.5-3'' = [''1.5-3'']" by simp
  have ap: "apply_part 10 [] ''1.5-3'' = range_loop (Fin (3 / 2)) (Fin 3) 10 []"
    unfolding apply_part_def n by (simp add: isNaN_def js_min_def js_max_def)
  show ?thesis
    unfolding selectedIndices_def sp forEach_parts.simps ap l1 by simp
qed

section \<open>Reversed ranges\<close>

text \<open>
  C9 (as stated): for every pair of numbers \<open>a\<close>, \<open>b\<close> the token \<open>a-b\<close> yields the pages from
  \<open>min a b\<close> to \<open>max a b\<close> clamped to \<open>[1, N]\<close>. This fails for a fractional number, where the
  loop counter is fractional and no page index is reached (\<open>1.5-3\<close> yields \<open>0.5\<close> and \<open>1.5\<close>, not
  the indices 1 and 2 of the pages 2 and 3), and from \<open>2^53\<close> on, where the handler does not
  return.
\<close>

theorem C9_counterexample:
  "selectedIndices ''1.5-3'' 10 = Some [Fin (1 / 2), Fin (3 / 2)]
   \<and> selectedIndices ''1.5-3'' 10 \<noteq> Some (map num [1, 2])
   \<and> selectedIndices ''1-9007199254740992'' 10 = None"
  by (simp add: parse_fractional_range parse_to_2_53 num_def)

text \<open>
  C9 (amended): reversed range tokens are normalised, not rejected. For all strings \<open>a\<close>, \<open>b\<close>
  free of commas and dashes, the token \<open>a-b\<close> parses like \<open>b-a\<close> (the same set, or neither
  returns); for whole numbers \<open>x\<close>, \<open>y\<close> below \<open>2^53\<close> written in decimal, both give the pages from
  \<open>min x y\<close> to \<open>max x y\<close> clamped to \<open>[1, N]\<close>, that is the indices from \<open>min x y - 1\<close> up to,
  excluding, \<open>min (max x y) N\<close>; and \<open>5-2\<close> yields the indices 1, 2, 3, 4 on five pages or more.
\<close>

theorem C9_reversed_range:
  "(CHR '','' \<notin> set a \<union> set b \<and> CHR ''-'' \<notin> set a \<union> set b \<longrightarrow>
      selectedIndices (a @ ''-'' @ b) n = selectedIndices (b @ ''-'' @ a) n)
   \<and> (x < 2 ^ 53 \<and> y < 2 ^ 53 \<longrightarrow>
      selectedIndices (show_nat x @ ''-'' @ show_nat y) n =
        Some (map num [min x y - 1 ..< min (max x y) n])
      \<and> selectedIndices (show_nat y @ ''-'' @ show_nat x) n =
        Some (map num [min x y - 1 ..< min (max x y) n]))
   \<and> (5 \<le> n \<longrightarrow> selectedIndices ''5-2'' n = Some (map num [1, 2, 3, 4])
               \<and> selectedIndices ''2-5'' n = Some (map num [1, 2, 3, 4]))"
proof -
  have 1: "selectedIndices (a @ ''-'' @ b) n = selectedIndices (b @ ''-'' @ a) n"
    if "CHR '','' \<notin> set a \<union> set b \<and> CHR ''-'' \<notin> set a \<union> set b"
    using that selectedIndices_swap[of a b n] by blast
  have 2: "selectedIndices (show_nat x @ ''-'' @ show_nat y) n =
        Some (map num [min x y - 1 ..< min (max x y) n])
      \<and> selectedIndices (show_nat y @ ''-'' @ show_nat x) n =
        Some (map num [min x y - 1 ..< min (max x y) n])"
    if "x < 2 ^ 53 \<and> y < 2 ^ 53"
    using that selectedIndices_nat_pair[of x y n] selectedIndices_nat_pair[of y x n]
    by (simp add: min.commute max.commute)
  have 3: "selectedIndices ''5-2'' n = Some (map num [1, 2, 3, 4])
               \<and> selectedIndices ''2-5'' n = Some (map num [1, 2, 3, 4])" if "5 \<le> n"
  proof -
    have "min 5 n = 5" using that by simp
    then show ?thesis by (simp add: parse_eval)
  qed
  show ?thesis using 1 2 3 by blast
qed

theorem C9_reversed_range_witness:
  "selectedIndices (''5'' @ ''-'' @ ''2'') 10 = selectedIndices (''2'' @ ''-'' @ ''5'') 10
   \<and> selectedIndices (show_nat 5 @ ''-'' @ show_nat 2) 10 = Some (map num [1, 2, 3, 4])
   \<and> selectedIndices ''5-2'' 10 = Some (map num [1, 2, 3, 4])"
proof -
  have h1: "CHR '','' \<notin> set ''5'' \<union> set ''2'' \<and> CHR ''-'' \<notin> set ''5'' \<union> set ''2''" by simp
  have h2: "(5::nat) < 2 ^ 53 \<and> (2::nat) < 2 ^ 53" by simp
  have h3: "(5::nat) \<le> 10" by simp
  have u: "[min 5 2 - 1 ..< min (max 5 2) (10::nat)] = [1, 2, 3, 4]" by (simp add: upt_rec)
  from C9_reversed_range[of "''5''" "''2''" 10 5 2] h1 h2 h3 u show ?thesis by simp
qed

section \<open>Input without a valid token\<close>



section \<open>The fixed-size partition\<close>

lemma less_chunkCount: "1 \<le> k \<Longrightarrow> i < chunkCount n k \<longleftrightarrow> i * k < n"
proof -
  assume k: "1 \<le> k"
  then have kp: "(0::rat) < of_nat k" by simp
  have "i < chunkCount n k \<longleftrightarrow> int i < \<lceil>(of_nat n :: rat) / of_nat k\<rceil>"
    by (simp add: chunkCount_def zless_nat_eq_int_zless)
  also have "\<dots> \<longleftrightarrow> (of_nat i :: rat) < of_nat n / of_nat k"
    by (simp add: less_ceiling_iff)
  also have "\<dots> \<longleftrightarrow> (of_nat i :: rat) * of_nat k < of_nat n"
    using kp by (simp add: pos_less_divide_eq)
  also have "\<dots> \<longleftrightarrow> (of_nat (i * k) :: rat) < of_nat n" by simp
  also have "\<dots> \<longleftrightarrow> i * k < n" by (simp only: of_nat_less_iff)
  finally show ?thesis .
qed

lemma chunkCount_div: "1 \<le> k \<Longrightarrow> chunkCount n k = (n + k - 1) div k"
proof -
  assume k: "1 \<le> k"
  have "i < chunkCount n k \<longleftrightarrow> i < (n + k - 1) div k" for i
  proof -
    have "i < (n + k - 1) div k \<longleftrightarrow> Suc i \<le> (n + k - 1) div k" by auto
    also have "\<dots> \<longleftrightarrow> Suc i * k \<le> n + k - 1" using k by (simp add: less_eq_div_iff_mult_less_eq)
    also have "\<dots> \<longleftrightarrow> i * k < n" using k by auto
    finally show ?thesis using less_chunkCount[OF k] by simp
  qed
  then show ?thesis by (metis linorder_neqE_nat order_less_irrefl)
qed

lemma chunk_indices_upt: "chunk_indices n k i = [i * k ..< min (i * k + k) n]"
proof (cases "i * k \<le> min (i * k + k) n")
  case True
  then show ?thesis
    using map_add_upt[of "i * k" "min (i * k + k) n - i * k"]
    by (simp add: chunk_indices_def chunk_start_def chunk_end_def)
next
  case False
  then show ?thesis by (simp add: chunk_indices_def chunk_start_def chunk_end_def)
qed

lemma concat_chunks: "concat (map (chunk_indices n k) [0 ..< c]) = [0 ..< min (c * k) n]"
proof (induction c)
  case 0
  then show ?case by simp
next
  case (Suc c)
  show ?case
  proof (cases "c * k \<le> n")
    case True
    then have "[0 ..< min (c * k) n] @ [c * k ..< min (c * k + k) n] = [0 ..< min (c * k + k) n]"
      by (metis le_add1 min.absorb1 min.boundedI upt_add_eq_append zero_le le_Suc_ex)
    then show ?thesis using Suc by (simp add: chunk_indices_upt add.commute)
  next
    case False
    then show ?thesis using Suc by (simp add: chunk_indices_upt)
  qed
qed

lemma concat_fixed_groups: "1 \<le> k \<Longrightarrow> concat (fixed_groups n k) = [0 ..< n]"
proof -
  assume k: "1 \<le> k"
  have "\<not> chunkCount n k * k < n" using less_chunkCount[OF k, of "chunkCount n k" n] by simp
  then have "min (chunkCount n k * k) n = n" by simp
  then show ?thesis by (simp add: fixed_groups_def concat_chunks)
qed

lemma chunkCount_single: "1 \<le> n \<Longrightarrow> n \<le> k \<Longrightarrow> chunkCount n k = 1"
proof -
  assume n: "1 \<le> n" "n \<le> k"
  then have k: "1 \<le> k" by simp
  have "0 < chunkCount n k" "\<not> 1 < chunkCount n k"
    using n less_chunkCount[OF k, of 0 n] less_chunkCount[OF k, of 1 n] by simp_all
  then show ?thesis by simp
qed

lemma fixed_groups_single: "1 \<le> n \<Longrightarrow> n \<le> k \<Longrightarrow> fixed_groups n k = [[0 ..< n]]"
  by (simp add: fixed_groups_def chunk_indices_upt chunkCount_single)

lemma fixed_groups_10_3: "fixed_groups 10 3 = [[0, 1, 2], [3, 4, 5], [6, 7, 8], [9]]"
proof -
  have "chunkCount 10 3 = 4" by (simp add: chunkCount_div)
  then show ?thesis by (simp add: fixed_groups_def chunk_indices_upt upt_rec)
qed

lemma fixed_groups_partition:
  assumes "1 \<le> k"
  shows "length (fixed_groups n k) = nat \<lceil>(of_nat n :: rat) / of_nat k\<rceil>
       \<and> length (fixed_groups n k) = (n + k - 1) div k
       \<and> (\<forall>i < length (fixed_groups n k).
             fixed_groups n k ! i = [i * k ..< min (i * k + k) n] \<and> fixed_groups n k ! i \<noteq> [])
       \<and> concat (fixed_groups n k) = [0 ..< n]
       \<and> distinct (concat (fixed_groups n k))
       \<and> set (concat (fixed_groups n k)) = {0 ..< n}
       \<and> fixed_groups 10 3 = [[0, 1, 2], [3, 4, 5], [6, 7, 8], [9]]
       \<and> (1 \<le> n \<and> n \<le> k \<longrightarrow> fixed_groups n k = [[0 ..< n]])"
proof -
  have len: "length (fixed_groups n k) = chunkCount n k" by (simp add: fixed_groups_def)
  have 1: "length (fixed_groups n k) = nat \<lceil>(of_nat n :: rat) / of_nat k\<rceil>"
    by (simp add: len chunkCount_def)
  have 2: "length (fixed_groups n k) = (n + k - 1) div k"
    by (simp only: len chunkCount_div[OF assms])
  have 3: "fixed_groups n k ! i = [i * k ..< min (i * k + k) n] \<and> fixed_groups n k ! i \<noteq> []"
    if "i < length (fixed_groups n k)" for i
  proof -
    have i: "i < chunkCount n k" using that len by simp
    then have "i * k < n" using less_chunkCount[OF assms] by simp
    moreover have "fixed_groups n k ! i = [i * k ..< min (i * k + k) n]"
      using i by (simp add: fixed_groups_def chunk_indices_upt)
    ultimately show ?thesis using assms by simp
  qed
  have 4: "concat (fixed_groups n k) = [0 ..< n]" by (rule concat_fixed_groups[OF assms])
  have 5: "distinct (concat (fixed_groups n k))" "set (concat (fixed_groups n k)) = {0 ..< n}"
    by (simp_all only: 4 distinct_upt set_upt)
  have 6: "fixed_groups n k = [[0 ..< n]]" if "1 \<le> n \<and> n \<le> k"
    using that fixed_groups_single by blast
  show ?thesis using 1 2 3 4 5 6 fixed_groups_10_3 by blast
qed

section \<open>Archives produced by \<open>processPDF\<close>\<close>

lemma update_fresh: "k \<notin> fst ` set al \<Longrightarrow> AList.update k v al = al @ [(k, v)]"
  by (induction al) auto

lemma zip_file_fresh: "name \<notin> fst ` set zp \<Longrightarrow> zip_file name doc zp = zp @ [(name, doc)]"
  by (simp add: zip_file_def update_fresh)

lemma digits_prefix_unique:
  assumes "list_all is_digit xs" "list_all is_digit ys" "\<not> is_digit c" "\<not> is_digit d"
    and "xs @ c # r = ys @ d # r'"
  shows "xs = ys"
proof -
  have "takeWhile is_digit (xs @ c # r) = xs" "takeWhile is_digit (ys @ d # r') = ys"
    using assms(1-4) by (simp_all add: list_all_iff)
  then show ?thesis using assms(5) by simp
qed

lemma underscore_not_digit: "\<not> is_digit CHR ''_''" "\<not> is_digit CHR ''.''"
  by (simp_all add: is_digit_def)

lemma part_name_inj: "part_name n k i = part_name n k j \<Longrightarrow> i = j"
proof -
  assume "part_name n k i = part_name n k j"
  then have "show_nat (i + 1) @ CHR ''_'' # (''pages_'' @ show_nat (chunk_start k i + 1) @ ''-''
                @ show_nat (chunk_end n k i) @ ''.pdf'')
           = show_nat (j + 1) @ CHR ''_'' # (''pages_'' @ show_nat (chunk_start k j + 1) @ ''-''
                @ show_nat (chunk_end n k j) @ ''.pdf'')"
    by (simp add: part_name_def)
  then have "show_nat (i + 1) = show_nat (j + 1)"
    by (rule digits_prefix_unique[OF show_nat_digits show_nat_digits underscore_not_digit(1)
          underscore_not_digit(1)])
  then show ?thesis using show_nat_inj by fastforce
qed

lemma page_name_inj: "page_name p = page_name q \<Longrightarrow> index p = index q"
proof -
  assume "page_name p = page_name q"
  then have "show_nat (index p + 1) @ CHR ''.'' # ''pdf'' = show_nat (index q + 1) @ CHR ''.'' # ''pdf''"
    by (simp add: page_name_def)
  then have "show_nat (index p + 1) = show_nat (index q + 1)"
    by (rule digits_prefix_unique[OF show_nat_digits show_nat_digits underscore_not_digit(2)
          underscore_not_digit(2)])
  then show ?thesis using show_nat_inj by fastforce
qed

lemma chunk_indices_bound: "list_all (\<lambda>j. j < n) (chunk_indices n k i)"
  by (simp add: chunk_indices_upt list_all_iff)

lemma copyPages_chunk: "n \<le> c \<Longrightarrow> copyPages c (chunk_indices n k i) = Inr (chunk_indices n k i)"
proof -
  assume "n \<le> c"
  then have "list_all (\<lambda>j. j < c) (chunk_indices n k i)"
    using chunk_indices_bound[of n k i] by (auto simp: list_all_iff)
  then show ?thesis by (simp add: copyPages_def)
qed

lemma fixed_loop_entries:
  assumes "n \<le> c" "distinct is" "part_name n k ` set is \<inter> fst ` set zp = {}"
  shows "fixed_loop c n k is zp =
         Inr (zp @ map (\<lambda>i. (part_name n k i, chunk_indices n k i)) is)"
  using assms(2,3)
proof (induction "is" arbitrary: zp)
  case Nil
  then show ?case by simp
next
  case (Cons i "is")
  have fresh: "part_name n k i \<notin> fst ` set zp" using Cons.prems(2) by auto
  let ?zp = "zp @ [(part_name n k i, chunk_indices n k i)]"
  have "part_name n k ` set is \<inter> fst ` set ?zp = {}"
    using Cons.prems part_name_inj[of n k _ i] by auto
  then have "fixed_loop c n k is ?zp =
             Inr (?zp @ map (\<lambda>i. (part_name n k i, chunk_indices n k i)) is)"
    using Cons.IH[of ?zp] Cons.prems(1) by simp
  then show ?case
    by (simp add: copyPages_chunk[OF assms(1)] zip_file_fresh[OF fresh])
qed

lemma separate_loop_entries:
  assumes "\<forall>p\<in>set ps. index p < c" "distinct (map index ps)"
    "page_name ` set ps \<inter> fst ` set zp = {}"
  shows "separate_loop c ps zp = Inr (zp @ map (\<lambda>p. (page_name p, [index p])) ps)"
  using assms
proof (induction ps arbitrary: zp)
  case Nil
  then show ?case by simp
next
  case (Cons p ps)
  have fresh: "page_name p \<notin> fst ` set zp" using Cons.prems(3) by auto
  let ?zp = "zp @ [(page_name p, [index p])]"
  have "page_name p \<notin> page_name ` set ps"
    using Cons.prems(2) page_name_inj[of p] by force
  then have "page_name ` set ps \<inter> fst ` set ?zp = {}"
    using Cons.prems(3) by auto
  then have "separate_loop c ps ?zp = Inr (?zp @ map (\<lambda>p. (page_name p, [index p])) ps)"
    using Cons.IH[of ?zp] Cons.prems(1,2) by simp
  then show ?case
    using Cons.prems(1) by (simp add: copyPages_def zip_file_fresh[OF fresh])
qed

lemma process_body_fixed:
  fixes st :: state
  assumes "mode st = Fixed" "srcDoc ev = Some c" "length (pages st) \<le> c"
  shows "process_body ev st =
         Inr (Some (ZipBlob (map (\<lambda>i. (part_name (length (pages st)) (fixedRange st) i,
                                        chunk_indices (length (pages st)) (fixedRange st) i))
                              [0 ..< chunkCount (length (pages st)) (fixedRange st)]),
                    ''split_fixed_'' @ show_nat (timestamp ev) @ ''.zip''))"
  using assms fixed_loop_entries[OF assms(3), of "[0 ..< chunkCount (length (pages st)) (fixedRange st)]"
      "fixedRange st" "[]"]
  by (simp add: process_body_def)

lemma process_body_separate:
  fixes st :: state
  assumes "mode st = Custom" "outputMode st = Separate" "filter selected (pages st) \<noteq> []"
    "srcDoc ev = Some c" "\<forall>p\<in>set (pages st). index p < c" "distinct (map index (pages st))"
  shows "process_body ev st =
         Inr (Some (ZipBlob (map (\<lambda>p. (page_name p, [index p])) (filter selected (pages st))),
                    ''extracted_pages_'' @ show_nat (timestamp ev) @ ''.zip''))"
proof -
  have "separate_loop c (filter selected (pages st)) [] =
        Inr ([] @ map (\<lambda>p. (page_name p, [index p])) (filter selected (pages st)))"
    using assms(5,6) by (intro separate_loop_entries) (auto simp: distinct_map_filter)
  then show ?thesis using assms(1-4) by (simp add: process_body_def Let_def)
qed

lemma process_body_empty:
  fixes st :: state
  assumes "mode st = Custom" "filter selected (pages st) = []"
  shows "process_body ev st = (case srcDoc ev of None \<Rightarrow> Inl LoadFailed | Some c \<Rightarrow> Inr None)"
  using assms by (simp add: process_body_def Let_def split: option.splits)

lemma load_loop_result:
  "load_loop th is acc = Some ps \<Longrightarrow>
     map index ps = map index acc @ map (\<lambda>i. i - 1) (filter (\<lambda>i. th i \<noteq> Some None) is)
     \<and> (list_all (\<lambda>p. \<not> selected p) acc \<longrightarrow> list_all (\<lambda>p. \<not> selected p) ps)"
proof (induction "is" arbitrary: acc)
  case Nil
  then show ?case by simp
next
  case (Cons i "is")
  show ?case
  proof (cases "th i")
    case None
    then show ?thesis using Cons.prems by simp
  next
    case (Some r)
    show ?thesis
    proof (cases r)
      case None
      then show ?thesis using Cons.prems Cons.IH[of acc] Some by simp
    next
      case (Some url)
      then show ?thesis
        using Cons.prems Cons.IH[of "acc @ [\<lparr>index = i - 1, imageUrl = url, selected = False\<rparr>]"]
          \<open>th i = Some r\<close>
        by simp
    qed
  qed
qed

lemma loadPDF_pages:
  "distinct (map index (pages (loadPDF lib f st)))
   \<and> list_all (\<lambda>p. \<not> selected p) (pages (loadPDF lib f st))
   \<and> (\<forall>p\<in>set (pages (loadPDF lib f st)). \<exists>total. numPages lib = Some total \<and> index p < total)"
proof (cases "case numPages lib of None \<Rightarrow> None
              | Some totalPages \<Rightarrow> load_loop (thumbnail lib) [1 ..< Suc totalPages] []")
  case None
  then have "pages (loadPDF lib f st) = []"
    by (simp add: loadPDF_def Let_def setPages_def)
  then show ?thesis by simp
next
  case (Some ps)
  then obtain total where t: "numPages lib = Some total"
      "load_loop (thumbnail lib) [1 ..< Suc total] [] = Some ps"
    by (auto split: option.splits)
  have p: "pages (loadPDF lib f st) = ps"
    using Some by (simp add: loadPDF_def Let_def setPages_def)
  let ?is = "filter (\<lambda>i. thumbnail lib i \<noteq> Some None) [1 ..< Suc total]"
  have r: "map index ps = map (\<lambda>i. i - 1) ?is" "list_all (\<lambda>p. \<not> selected p) ps"
    using load_loop_result[OF t(2)] by simp_all
  have "inj_on (\<lambda>i. i - 1) (set ?is)" by (auto intro!: inj_onI)
  then have d: "distinct (map index ps)" unfolding r(1) by (simp add: distinct_map)
  have "\<forall>j\<in>set (map index ps). j < total" unfolding r(1) by auto
  then have b: "\<forall>p\<in>set ps. index p < total" by simp
  show ?thesis using d r(2) b t(1) by (simp add: p)
qed

lemma selection_keeps_indices:
  fixes st :: state
  shows "map index (pages (togglePageSelection i st)) = map index (pages st)"
    and "map index (pages (selectAll b st)) = map index (pages st)"
    and "applyRange st = Some st' \<Longrightarrow> map index (pages st') = map index (pages st)"
proof -
  show "map index (pages (togglePageSelection i st)) = map index (pages st)"
    by (simp add: togglePageSelection_def comp_def if_distrib cong: if_cong)
  show "map index (pages (selectAll b st)) = map index (pages st)"
    by (simp add: selectAll_def comp_def)
  show "applyRange st = Some st' \<Longrightarrow> map index (pages st') = map index (pages st)"
    by (auto simp: applyRange_def comp_def split: if_splits option.splits)
qed

section \<open>The groups of the fixed-size archive\<close>

lemma archive_groups_fixed:
  fixes st :: state
  assumes "mode st = Fixed" and "srcDoc ev = Some c" and "length (pages st) \<le> c"
  shows "archive_groups (process_body ev st) =
         Some (fixed_groups (length (pages st)) (fixedRange st))"
  by (simp add: process_body_fixed[OF assms] archive_groups_def fixed_groups_def comp_def)

lemma resultUrl_fixed:
  fixes st :: state
  assumes "file' st \<noteq> None" and "mode st = Fixed" and "srcDoc ev = Some c"
    and "length (pages st) \<le> c"
  shows "\<exists>zp. resultUrl (processPDF ev st) = Some (ZipBlob zp)
              \<and> map snd zp = fixed_groups (length (pages st)) (fixedRange st)"
  using assms(1)
  by (simp add: processPDF_def process_body_fixed[OF assms(2-4)] fixed_groups_def comp_def
      del: not_None_eq)

lemma ten_pages_length: "length (pages (fixed_state (map (\<lambda>i. page i False) [0 ..< 10]) 3)) = 10"
  by (simp add: fixed_state_def custom_state_def)

text \<open>
  C2: for every page count \<open>n\<close> and chunk size \<open>k \<ge> 1\<close>, when the document loads and has the
  pages, the fixed-size loop of \<open>processPDF\<close> puts \<open>\<lceil>n / k\<rceil>\<close> documents into the archive; document
  \<open>i\<close> holds the page indices from \<open>i * k\<close> up to, excluding, \<open>min (i * k + k) n\<close> and is not
  empty; the groups one after the other are exactly \<open>0, ..., n - 1\<close>, so they are contiguous,
  do not overlap and cover every page. Ten pages in chunks of 3 give
  \<open>[0-2], [3-5], [6-8], [9]\<close>, and \<open>k \<ge> n \<ge> 1\<close> gives the single group of all pages.
\<close>

theorem C2_fixed_partition:
  fixes st :: state
  assumes "mode st = Fixed" and "1 \<le> fixedRange st"
    and "srcDoc ev = Some c" and "length (pages st) \<le> c"
  shows "(\<exists>G. archive_groups (process_body ev st) = Some G
            \<and> (file' st \<noteq> None \<longrightarrow>
                  (\<exists>zp. resultUrl (processPDF ev st) = Some (ZipBlob zp) \<and> map snd zp = G))
            \<and> G = fixed_groups (length (pages st)) (fixedRange st)
            \<and> length G = nat \<lceil>(of_nat (length (pages st)) :: rat) / of_nat (fixedRange st)\<rceil>
            \<and> length G = (length (pages st) + fixedRange st - 1) div fixedRange st
            \<and> (\<forall>i < length G.
                  G ! i = [i * fixedRange st ..<
                             min (i * fixedRange st + fixedRange st) (length (pages st))]
                  \<and> G ! i \<noteq> [])
            \<and> concat G = [0 ..< length (pages st)]
            \<and> distinct (concat G)
            \<and> set (concat G) = {0 ..< length (pages st)}
            \<and> (1 \<le> length (pages st) \<and> length (pages st) \<le> fixedRange st \<longrightarrow>
                  G = [[0 ..< length (pages st)]]))
       \<and> archive_groups
            (process_body \<lparr>timestamp = 0, srcDoc = Some 10\<rparr>
               (fixed_state (map (\<lambda>i. page i False) [0 ..< 10]) 3)) =
          Some [[0, 1, 2], [3, 4, 5], [6, 7, 8], [9]]"
proof -
  let ?n = "length (pages st)" and ?k = "fixedRange st"
  let ?G = "fixed_groups ?n ?k"
  have g: "archive_groups (process_body ev st) = Some ?G"
    by (rule archive_groups_fixed[OF assms(1,3,4)])
  have u: "file' st \<noteq> None \<longrightarrow>
             (\<exists>zp. resultUrl (processPDF ev st) = Some (ZipBlob zp) \<and> map snd zp = ?G)"
    using resultUrl_fixed[OF _ assms(1,3,4)] by blast
  note p = fixed_groups_partition[OF assms(2), of ?n]
  have general: "\<exists>G. archive_groups (process_body ev st) = Some G
            \<and> (file' st \<noteq> None \<longrightarrow>
                  (\<exists>zp. resultUrl (processPDF ev st) = Some (ZipBlob zp) \<and> map snd zp = G))
            \<and> G = ?G
            \<and> length G = nat \<lceil>(of_nat ?n :: rat) / of_nat ?k\<rceil>
            \<and> length G = (?n + ?k - 1) div ?k
            \<and> (\<forall>i < length G. G ! i = [i * ?k ..< min (i * ?k + ?k) ?n] \<and> G ! i \<noteq> [])
            \<and> concat G = [0 ..< ?n]
            \<and> distinct (concat G)
            \<and> set (concat G) = {0 ..< ?n}
            \<and> (1 \<le> ?n \<and> ?n \<le> ?k \<longrightarrow> G = [[0 ..< ?n]])"
    by (rule exI[of _ ?G])
      (intro conjI g u refl p[THEN conjunct1] p[THEN conjunct2, THEN conjunct1]
        p[THEN conjunct2, THEN conjunct2, THEN conjunct1]
        p[THEN conjunct2, THEN conjunct2, THEN conjunct2, THEN conjunct1]
        p[THEN conjunct2, THEN conjunct2, THEN conjunct2, THEN conjunct2, THEN conjunct1]
        p[THEN conjunct2, THEN conjunct2, THEN conjunct2, THEN conjunct2, THEN conjunct2,
          THEN conjunct1]
        p[THEN conjunct2, THEN conjunct2, THEN conjunct2, THEN conjunct2, THEN conjunct2,
          THEN conjunct2, THEN conjunct2])
  let ?st10 = "fixed_state (map (\<lambda>i. page i False) [0 ..< 10]) 3"
  have m: "mode ?st10 = Fixed" "fixedRange ?st10 = 3" "srcDoc \<lparr>timestamp = 0, srcDoc = Some 10\<rparr> = Some 10"
    by (simp_all add: fixed_state_def custom_state_def)
  have "length (pages ?st10) \<le> 10" by (simp only: ten_pages_length)
  from archive_groups_fixed[OF m(1) m(3) this]
  have example: "archive_groups (process_body \<lparr>timestamp = 0, srcDoc = Some 10\<rparr> ?st10) =
                 Some [[0, 1, 2], [3, 4, 5], [6, 7, 8], [9]]"
    by (simp only: ten_pages_length m(2) fixed_groups_10_3)
  show ?thesis using general example by (rule conjI)
qed

theorem C2_fixed_partition_witness:
  "mode (fixed_state [page 0 False, page 1 False, page 2 False] 2) = Fixed
   \<and> 1 \<le> fixedRange (fixed_state [page 0 False, page 1 False, page 2 False] 2)
   \<and> length (pages (fixed_state [page 0 False, page 1 False, page 2 False] 2)) \<le> 3
   \<and> archive_groups
        (process_body \<lparr>timestamp = 7, srcDoc = Some 3\<rparr>
           (fixed_state [page 0 False, page 1 False, page 2 False] 2)) =
      Some [[0, 1], [2]]
   \<and> resultUrl (processPDF \<lparr>timestamp = 7, srcDoc = Some 3\<rparr>
        (fixed_state [page 0 False, page 1 False, page 2 False] 2)) \<noteq> None
   \<and> archive_groups
        (process_body \<lparr>timestamp = 0, srcDoc = Some 10\<rparr>
           (fixed_state (map (\<lambda>i. page i False) [0 ..< 10]) 3)) =
      Some [[0, 1, 2], [3, 4, 5], [6, 7, 8], [9]]"
proof -
  let ?ev = "\<lparr>timestamp = 7, srcDoc = Some 3\<rparr>"
  let ?st = "fixed_state [page 0 False, page 1 False, page 2 False] 2"
  have h: "mode ?st = Fixed" "1 \<le> fixedRange ?st" "srcDoc ?ev = Some 3" "length (pages ?st) \<le> 3"
    by (simp_all add: fixed_state_def custom_state_def)
  have f: "file' ?st \<noteq> None" by (simp add: fixed_state_def custom_state_def)
  have v: "length (pages ?st) = 3" "fixedRange ?st = 2"
    by (simp_all add: fixed_state_def custom_state_def)
  have g: "fixed_groups 3 2 = [[0, 1], [2]]"
  proof -
    have "chunkCount 3 2 = 2" by (simp add: chunkCount_div)
    then show ?thesis by (simp add: fixed_groups_def chunk_indices_upt upt_rec)
  qed
  from C2_fixed_partition[OF h]
  obtain G where G: "archive_groups (process_body ?ev ?st) = Some G"
      "file' ?st \<noteq> None \<longrightarrow>
         (\<exists>zp. resultUrl (processPDF ?ev ?st) = Some (ZipBlob zp) \<and> map snd zp = G)"
      "G = fixed_groups (length (pages ?st)) (fixedRange ?st)"
    and ex: "archive_groups
        (process_body \<lparr>timestamp = 0, srcDoc = Some 10\<rparr>
           (fixed_state (map (\<lambda>i. page i False) [0 ..< 10]) 3)) =
      Some [[0, 1, 2], [3, 4, 5], [6, 7, 8], [9]]"
    by blast
  have a: "archive_groups (process_body ?ev ?st) = Some [[0, 1], [2]]"
    using G(1,3) by (simp only: v g)
  have b: "resultUrl (processPDF ?ev ?st) \<noteq> None"
    using G(2) f by auto
  show ?thesis by (intro conjI h(1,2,4) a b ex)
qed

section \<open>Fixed-size mode\<close>

lemma part_name_unfold:
  "part_name n k i = ''part_'' @ show_nat (i + 1) @ ''_pages_'' @ show_nat (i * k + 1) @ ''-''
       @ show_nat (min (i * k + k) n) @ ''.pdf''"
  by (simp add: part_name_def chunk_start_def chunk_end_def)

lemma part_name_fun:
  "part_name n k = (\<lambda>i. ''part_'' @ show_nat (i + 1) @ ''_pages_'' @ show_nat (i * k + 1) @ ''-''
       @ show_nat (min (i * k + k) n) @ ''.pdf'')"
  by (rule ext) (rule part_name_unfold)

text \<open>
  C7: in fixed-size mode, when the document loads and has the pages, \<open>processPDF\<close> stores
  an archive with one entry per chunk, in order; the entry of chunk \<open>i\<close> (counted from 0) is
  named \<open>part_<i+1>_pages_<start+1>-<end>\<close> with the extension \<open>.pdf\<close> and holds the pages of
  the chunk; the names are pairwise different; and a single chunk is archived too.
\<close>

theorem C7_fixed_archive:
  fixes st :: state
  assumes "file' st \<noteq> None" and "mode st = Fixed" and "1 \<le> fixedRange st"
    and "srcDoc ev = Some c" and "length (pages st) \<le> c"
  shows "processPDF ev st =
           st\<lparr>resultUrl := Some (ZipBlob
                  (map (\<lambda>i. (''part_'' @ show_nat (i + 1) @ ''_pages_''
                               @ show_nat (i * fixedRange st + 1) @ ''-''
                               @ show_nat (min (i * fixedRange st + fixedRange st) (length (pages st)))
                               @ ''.pdf'',
                             [i * fixedRange st ..<
                                min (i * fixedRange st + fixedRange st) (length (pages st))]))
                     [0 ..< nat \<lceil>(of_nat (length (pages st)) :: rat) / of_nat (fixedRange st)\<rceil>])),
              resultFilename := ''split_fixed_'' @ show_nat (timestamp ev) @ ''.zip'',
              isProcessing := False\<rparr>
       \<and> distinct (map (\<lambda>i. ''part_'' @ show_nat (i + 1) @ ''_pages_''
                               @ show_nat (i * fixedRange st + 1) @ ''-''
                               @ show_nat (min (i * fixedRange st + fixedRange st) (length (pages st)))
                               @ ''.pdf'')
                     [0 ..< nat \<lceil>(of_nat (length (pages st)) :: rat) / of_nat (fixedRange st)\<rceil>])
       \<and> (1 \<le> length (pages st) \<and> length (pages st) \<le> fixedRange st \<longrightarrow>
            processPDF ev st =
              st\<lparr>resultUrl := Some (ZipBlob
                     [(''part_'' @ show_nat 1 @ ''_pages_'' @ show_nat 1 @ ''-''
                         @ show_nat (length (pages st)) @ ''.pdf'', [0 ..< length (pages st)])]),
                 resultFilename := ''split_fixed_'' @ show_nat (timestamp ev) @ ''.zip'',
                 isProcessing := False\<rparr>)"
proof -
  let ?n = "length (pages st)" and ?k = "fixedRange st"
  let ?es = "map (\<lambda>i. (part_name ?n ?k i, chunk_indices ?n ?k i)) [0 ..< chunkCount ?n ?k]"
  have p: "processPDF ev st =
             st\<lparr>resultUrl := Some (ZipBlob ?es),
                resultFilename := ''split_fixed_'' @ show_nat (timestamp ev) @ ''.zip'',
                isProcessing := False\<rparr>"
    using assms(1)
    by (simp add: processPDF_def process_body_fixed[OF assms(2,4,5)] del: not_None_eq)
  have 1: "processPDF ev st =
           st\<lparr>resultUrl := Some (ZipBlob
                  (map (\<lambda>i. (''part_'' @ show_nat (i + 1) @ ''_pages_''
                               @ show_nat (i * ?k + 1) @ ''-''
                               @ show_nat (min (i * ?k + ?k) ?n) @ ''.pdf'',
                             [i * ?k ..< min (i * ?k + ?k) ?n]))
                     [0 ..< nat \<lceil>(of_nat ?n :: rat) / of_nat ?k\<rceil>])),
              resultFilename := ''split_fixed_'' @ show_nat (timestamp ev) @ ''.zip'',
              isProcessing := False\<rparr>"
    unfolding p by (simp add: part_name_unfold chunk_indices_upt chunkCount_def)
  have "inj_on (part_name ?n ?k) (set [0 ..< chunkCount ?n ?k])"
    using part_name_inj by (auto intro: inj_onI)
  then have "distinct (map (part_name ?n ?k) [0 ..< chunkCount ?n ?k])"
    by (simp add: distinct_map)
  then have 2: "distinct (map (\<lambda>i. ''part_'' @ show_nat (i + 1) @ ''_pages_''
                               @ show_nat (i * ?k + 1) @ ''-''
                               @ show_nat (min (i * ?k + ?k) ?n) @ ''.pdf'')
                     [0 ..< nat \<lceil>(of_nat ?n :: rat) / of_nat ?k\<rceil>])"
    unfolding part_name_fun chunkCount_def .
  have 3: "1 \<le> ?n \<and> ?n \<le> ?k \<longrightarrow>
            processPDF ev st =
              st\<lparr>resultUrl := Some (ZipBlob
                     [(''part_'' @ show_nat 1 @ ''_pages_'' @ show_nat 1 @ ''-''
                         @ show_nat ?n @ ''.pdf'', [0 ..< ?n])]),
                 resultFilename := ''split_fixed_'' @ show_nat (timestamp ev) @ ''.zip'',
                 isProcessing := False\<rparr>"
  proof
    assume h: "1 \<le> ?n \<and> ?n \<le> ?k"
    have "chunkCount ?n ?k = 1" using h by (intro chunkCount_single) simp_all
    then have "?es = [(''part_'' @ show_nat 1 @ ''_pages_'' @ show_nat 1 @ ''-''
                         @ show_nat ?n @ ''.pdf'', [0 ..< ?n])]"
      using h by (simp add: part_name_unfold chunk_indices_upt)
    then show "processPDF ev st =
              st\<lparr>resultUrl := Some (ZipBlob
                     [(''part_'' @ show_nat 1 @ ''_pages_'' @ show_nat 1 @ ''-''
                         @ show_nat ?n @ ''.pdf'', [0 ..< ?n])]),
                 resultFilename := ''split_fixed_'' @ show_nat (timestamp ev) @ ''.zip'',
                 isProcessing := False\<rparr>"
      unfolding p by (simp only:)
  qed
  show ?thesis by (intro conjI 1 2 3)
qed

lemma show_nat_digit: "n < 10 \<Longrightarrow> show_nat n = [char_of (48 + n)]"
  by (subst show_nat.simps) simp

lemma show_nat_values:
  "show_nat (Suc 0) = ''1''" "show_nat 1 = ''1''" "show_nat 2 = ''2''" "show_nat 3 = ''3''"
  "show_nat 7 = ''7''" "show_nat (Suc (Suc 0)) = ''2''" "show_nat (Suc (Suc (Suc 0))) = ''3''"
  by (simp_all add: show_nat_digit char_of_eq_iff)

theorem C7_fixed_archive_witness:
  "processPDF \<lparr>timestamp = 7, srcDoc = Some 3\<rparr>
      (fixed_state [page 0 False, page 1 False, page 2 False] 2) =
    (fixed_state [page 0 False, page 1 False, page 2 False] 2)
       \<lparr>resultUrl := Some (ZipBlob [(''part_1_pages_1-2.pdf'', [0, 1]),
                                    (''part_2_pages_3-3.pdf'', [2])]),
        resultFilename := ''split_fixed_7.zip'',
        isProcessing := False\<rparr>
   \<and> processPDF \<lparr>timestamp = 7, srcDoc = Some 3\<rparr>
      (fixed_state [page 0 False, page 1 False, page 2 False] 5) =
    (fixed_state [page 0 False, page 1 False, page 2 False] 5)
       \<lparr>resultUrl := Some (ZipBlob [(''part_1_pages_1-3.pdf'', [0, 1, 2])]),
        resultFilename := ''split_fixed_7.zip'',
        isProcessing := False\<rparr>"
proof -
  let ?ev = "\<lparr>timestamp = 7, srcDoc = Some 3\<rparr>"
  let ?ps = "[page 0 False, page 1 False, page 2 False]"
  have h2: "file' (fixed_state ?ps 2) \<noteq> None" "mode (fixed_state ?ps 2) = Fixed"
    "1 \<le> fixedRange (fixed_state ?ps 2)" "srcDoc ?ev = Some 3" "length (pages (fixed_state ?ps 2)) \<le> 3"
    by (simp_all add: fixed_state_def custom_state_def)
  have h5: "file' (fixed_state ?ps 5) \<noteq> None" "mode (fixed_state ?ps 5) = Fixed"
    "1 \<le> fixedRange (fixed_state ?ps 5)" "srcDoc ?ev = Some 3" "length (pages (fixed_state ?ps 5)) \<le> 3"
    by (simp_all add: fixed_state_def custom_state_def)
  have v: "fixedRange (fixed_state ?ps 2) = 2" "length (pages (fixed_state ?ps 2)) = 3"
    "timestamp ?ev = 7" "fixedRange (fixed_state ?ps 5) = 5" "length (pages (fixed_state ?ps 5)) = 3"
    by (simp_all add: fixed_state_def custom_state_def)
  have c: "nat \<lceil>(of_nat 3 :: rat) / of_nat 2\<rceil> = 2"
    using chunkCount_div[of 2 3] unfolding chunkCount_def by simp
  have a: "processPDF ?ev (fixed_state ?ps 2) =
      (fixed_state ?ps 2)\<lparr>resultUrl := Some (ZipBlob [(''part_1_pages_1-2.pdf'', [0, 1]),
                                    (''part_2_pages_3-3.pdf'', [2])]),
        resultFilename := ''split_fixed_7.zip'', isProcessing := False\<rparr>"
    using C7_fixed_archive[OF h2] unfolding v c
    by (simp add: upt_rec show_nat_values)
  have "(1::nat) \<le> 3 \<and> (3::nat) \<le> 5" by simp
  then have b: "processPDF ?ev (fixed_state ?ps 5) =
      (fixed_state ?ps 5)\<lparr>resultUrl := Some (ZipBlob [(''part_1_pages_1-3.pdf'', [0, 1, 2])]),
        resultFilename := ''split_fixed_7.zip'', isProcessing := False\<rparr>"
    using C7_fixed_archive[OF h5] unfolding v
    by (simp add: upt_rec show_nat_values)
  show ?thesis using a b by (rule conjI)
qed

lemma page_name_fun: "page_name = (\<lambda>p. ''page_'' @ show_nat (index p + 1) @ ''.pdf'')"
  by (rule ext) (simp add: page_name_def)

section \<open>Custom selection, separate documents\<close>

text \<open>
  C8: in custom mode with separate output and a non-empty selection, when the document loads
  and has the pages, \<open>processPDF\<close> stores an archive with exactly one entry per selected page,
  in page order: a one-page document named \<open>page_<index+1>\<close> with the extension \<open>.pdf\<close>.
  The page indices are pairwise different, as \<open>loadPDF\<close> leaves them (\<open>loadPDF_pages\<close>), so
  no entry replaces another.
\<close>

theorem C8_separate_archive:
  fixes st :: state
  assumes "file' st \<noteq> None" and "mode st = Custom" and "outputMode st = Separate"
    and "filter selected (pages st) \<noteq> []"
    and "srcDoc ev = Some c" and "\<forall>p\<in>set (pages st). index p < c"
    and "distinct (map index (pages st))"
  shows "processPDF ev st =
           st\<lparr>resultUrl := Some (ZipBlob
                  (map (\<lambda>p. (''page_'' @ show_nat (index p + 1) @ ''.pdf'', [index p]))
                     (filter selected (pages st)))),
              resultFilename := ''extracted_pages_'' @ show_nat (timestamp ev) @ ''.zip'',
              isProcessing := False\<rparr>
       \<and> distinct (map (\<lambda>p. ''page_'' @ show_nat (index p + 1) @ ''.pdf'')
                     (filter selected (pages st)))"
proof -
  have 1: "processPDF ev st =
           st\<lparr>resultUrl := Some (ZipBlob
                  (map (\<lambda>p. (''page_'' @ show_nat (index p + 1) @ ''.pdf'', [index p]))
                     (filter selected (pages st)))),
              resultFilename := ''extracted_pages_'' @ show_nat (timestamp ev) @ ''.zip'',
              isProcessing := False\<rparr>"
    using assms(1)
    by (simp add: processPDF_def process_body_separate[OF assms(2-7)] page_name_def
        del: not_None_eq)
  have "distinct (map index (filter selected (pages st)))"
    using assms(7) by (rule distinct_map_filter)
  moreover have "inj_on page_name (set (filter selected (pages st)))"
    if "distinct (map index (filter selected (pages st)))"
    using that page_name_inj by (metis (no_types, lifting) distinct_map inj_onD inj_onI)
  ultimately have "distinct (map page_name (filter selected (pages st)))"
    by (simp add: distinct_map)
  then have 2: "distinct (map (\<lambda>p. ''page_'' @ show_nat (index p + 1) @ ''.pdf'')
                     (filter selected (pages st)))"
    unfolding page_name_fun .
  show ?thesis by (intro conjI 1 2)
qed

theorem C8_separate_archive_witness:
  "processPDF \<lparr>timestamp = 7, srcDoc = Some 3\<rparr>
      (separate_state [page 0 True, page 1 False, page 2 True]) =
    (separate_state [page 0 True, page 1 False, page 2 True])
       \<lparr>resultUrl := Some (ZipBlob [(''page_1.pdf'', [0]), (''page_3.pdf'', [2])]),
        resultFilename := ''extracted_pages_7.zip'',
        isProcessing := False\<rparr>"
proof -
  let ?ev = "\<lparr>timestamp = 7, srcDoc = Some 3\<rparr>"
  let ?st = "separate_state [page 0 True, page 1 False, page 2 True]"
  have h: "file' ?st \<noteq> None" "mode ?st = Custom" "outputMode ?st = Separate"
    "filter selected (pages ?st) \<noteq> []" "srcDoc ?ev = Some 3" "\<forall>p\<in>set (pages ?st). index p < 3"
    "distinct (map index (pages ?st))"
    by (simp_all add: separate_state_def custom_state_def page_def)
  have v: "filter selected (pages ?st) = [page 0 True, page 2 True]" "timestamp ?ev = 7"
    by (simp_all add: separate_state_def custom_state_def page_def)
  show ?thesis
    using C8_separate_archive[OF h] unfolding v
    by (simp add: page_def show_nat_values)
qed

section \<open>Processing with nothing selected\<close>

text \<open>
  C5 (as stated): processing in custom mode with no page selected aborts, surfaces a notice
  and returns to the state before. No notice is surfaced: with a document that loads, the
  handler returns at \<open>if (selectedPages.length === 0) return\<close> and the state is unchanged.
\<close>

theorem C5_counterexample:
  "alerts (processPDF \<lparr>timestamp = 7, srcDoc = Some 2\<rparr>
             (custom_state [page 0 False, page 1 False] [])) = []
   \<and> processPDF \<lparr>timestamp = 7, srcDoc = Some 2\<rparr>
             (custom_state [page 0 False, page 1 False] []) =
       custom_state [page 0 False, page 1 False] []"
  by (simp add: processPDF_def process_body_def custom_state_def page_def)

text \<open>
  C5 (amended): processing in custom mode with no page selected produces no result and
  leaves the pages and their selection unchanged; when the document loads the handler returns
  silently, the state being the one before with \<open>isProcessing\<close> false; a notice appears only
  when reading or loading the document fails; and in such a state the button that triggers
  processing is disabled.
\<close>

theorem C5_empty_selection:
  fixes st :: state
  assumes "mode st = Custom" and "filter selected (pages st) = []"
  shows "pages (processPDF ev st) = pages st
       \<and> resultUrl (processPDF ev st) = resultUrl st
       \<and> resultFilename (processPDF ev st) = resultFilename st
       \<and> (file' st \<noteq> None \<and> srcDoc ev \<noteq> None \<longrightarrow>
            processPDF ev st = st\<lparr>isProcessing := False\<rparr> \<and> alerts (processPDF ev st) = alerts st)
       \<and> (file' st \<noteq> None \<and> srcDoc ev = None \<longrightarrow>
            processPDF ev st = st\<lparr>alerts := alerts st @ [''Failed to process pages.''],
                                  isProcessing := False\<rparr>)
       \<and> (file' st = None \<longrightarrow> processPDF ev st = st)
       \<and> process_disabled st"
  using assms
  by (auto simp: processPDF_def process_body_empty[OF assms] process_disabled_def
      split: option.splits)

theorem C5_empty_selection_witness:
  "mode (custom_state [page 0 False, page 1 False] []) = Custom
   \<and> filter selected (pages (custom_state [page 0 False, page 1 False] [])) = []
   \<and> processPDF \<lparr>timestamp = 7, srcDoc = Some 2\<rparr> (custom_state [page 0 False, page 1 False] []) =
       (custom_state [page 0 False, page 1 False] [])\<lparr>isProcessing := False\<rparr>
   \<and> alerts (processPDF \<lparr>timestamp = 7, srcDoc = Some 2\<rparr>
        (custom_state [page 0 False, page 1 False] [])) = []
   \<and> alerts (processPDF \<lparr>timestamp = 7, srcDoc = None\<rparr>
        (custom_state [page 0 False, page 1 False] [])) = [''Failed to process pages.'']
   \<and> process_disabled (custom_state [page 0 False, page 1 False] [])"
proof -
  let ?st = "custom_state [page 0 False, page 1 False] []"
  have h: "mode ?st = Custom" "filter selected (pages ?st) = []"
    by (simp_all add: custom_state_def page_def)
  have f: "file' ?st \<noteq> None" "alerts ?st = []" by (simp_all add: custom_state_def)
  have e: "srcDoc \<lparr>timestamp = 7, srcDoc = Some 2\<rparr> \<noteq> None" "srcDoc \<lparr>timestamp = 7, srcDoc = None\<rparr> = None"
    by simp_all
  show ?thesis
    using C5_empty_selection[OF h, of "\<lparr>timestamp = 7, srcDoc = Some 2\<rparr>"]
      C5_empty_selection[OF h, of "\<lparr>timestamp = 7, srcDoc = None\<rparr>"] h f e
    by simp
qed

end
